theory Spec2Isabelle
  imports Main "HOL-Library.AList" "HOL-Library.Char_ord" "HOL-Library.List_Lexorder"
begin

section \<open>Python values used by the timetable generator\<close>

text \<open>
  The engine of \<^verbatim>\<open>src/newgenerator.py\<close> is the function
  \<^verbatim>\<open>generate_college_timetable_with_sections\<close> with its helpers
  \<^verbatim>\<open>get_time_slots\<close>, \<^verbatim>\<open>apply_teacher_conflict_constraint\<close> and
  \<^verbatim>\<open>apply_section_constraint\<close>. Strings are \<open>char list\<close>, Python integers are
  \<open>int\<close>, list positions and loop counters of \<^verbatim>\<open>range\<close> are \<open>nat\<close>.
  A dictionary whose iteration order the code depends on is an association list kept in
  insertion order (\<open>AList.update\<close> overwrites in place or appends, as a Python
  \<^verbatim>\<open>dict\<close> does); a dictionary that is only looked up is a map.
\<close>

text \<open>
  What a call can end with besides a schedule: the returned failure descriptor
  \<^verbatim>\<open>{'error': msg}\<close>, or a raised \<^verbatim>\<open>KeyError\<close> / \<^verbatim>\<open>IndexError\<close>.
\<close>

datatype failure = ErrorDescriptor string | KeyError | IndexError

text \<open>\<^verbatim>\<open>str(n)\<close> for a non-negative integer: its decimal digits.\<close>

definition digit_char :: "nat \<Rightarrow> char" where
  "digit_char d = ''0123456789'' ! d"

function str_nat :: "nat \<Rightarrow> string" where
  "str_nat n = (if n < 10 then [digit_char n] else str_nat (n div 10) @ [digit_char (n mod 10)])"
  by pat_completeness auto
termination
  by (relation "measure id") auto

declare str_nat.simps [simp del]

text \<open>
  \<^verbatim>\<open>str.lower()\<close> on the ASCII letters; every other character is left as it is
  (the model's strings are byte strings, so letters outside ASCII are not covered).
\<close>

definition lower_char :: "char \<Rightarrow> char" where
  "lower_char c =
     (case map_of (zip ''ABCDEFGHIJKLMNOPQRSTUVWXYZ'' ''abcdefghijklmnopqrstuvwxyz'') c of
        None \<Rightarrow> c
      | Some l \<Rightarrow> l)"

definition lower :: "string \<Rightarrow> string" where
  "lower s = map lower_char s"

section \<open>Calendar Builder: \<^verbatim>\<open>get_time_slots\<close>\<close>

text \<open>
  The four values the function returns: the list \<^verbatim>\<open>slot_names\<close>, the dictionary
  \<^verbatim>\<open>slot_time\<close> from slot index to clock hour, the dictionary
  \<^verbatim>\<open>slot_to_day\<close> from slot name to lower-cased day, and
  \<^verbatim>\<open>day_slot_counts\<close>.
\<close>

record time_slots =
  slot_names :: "string list"
  slot_time :: "nat \<rightharpoonup> int"
  slot_to_day :: "string \<rightharpoonup> string"
  day_slot_counts :: "string \<rightharpoonup> nat"

definition day_abbreviations :: "string \<rightharpoonup> string" where
  "day_abbreviations = map_of
     [(''Monday'', ''M''), (''Tuesday'', ''T''), (''Wednesday'', ''W''),
      (''Thursday'', ''Th''), (''Friday'', ''F''), (''Saturday'', ''Sa''), (''Sunday'', ''Su'')]"

text \<open>\<^verbatim>\<open>day_abbreviations.get(day, day[:2])\<close>\<close>

definition abbrev_of :: "string \<Rightarrow> string" where
  "abbrev_of d = (case day_abbreviations d of None \<Rightarrow> take 2 d | Some a \<Rightarrow> a)"

text \<open>\<^verbatim>\<open>while start == 12: start += 1\<close>\<close>

function skip_lunch :: "int \<Rightarrow> int" where
  "skip_lunch start = (if start = 12 then skip_lunch (start + 1) else start)"
  by pat_completeness auto
termination
  by (relation "measure (\<lambda>s. if s = 12 then 1 else 0)") auto

declare skip_lunch.simps [simp del]

text \<open>
  The body of \<^verbatim>\<open>for j in range(hours)\<close>. The loop state is the four results
  under construction together with the counters \<^verbatim>\<open>idx\<close>, \<^verbatim>\<open>start\<close> and
  \<^verbatim>\<open>day_count\<close>.
\<close>

record slot_loop = time_slots +
  idx :: nat
  start :: int
  day_count :: nat

definition emit_slot :: "string \<Rightarrow> string \<Rightarrow> nat \<Rightarrow> slot_loop \<Rightarrow> slot_loop" where
  "emit_slot abbrev d j st =
     (let start' = skip_lunch (start st);
          slot_name = abbrev @ str_nat (j + 1)
      in st\<lparr> slot_names := slot_names st @ [slot_name],
              slot_time := (slot_time st)(idx st \<mapsto> start'),
              slot_to_day := (slot_to_day st)(slot_name \<mapsto> lower d),
              day_count := day_count st + 1,
              idx := idx st + 1,
              start := start' + 1 \<rparr>)"

fun emit_slots :: "string \<Rightarrow> string \<Rightarrow> nat list \<Rightarrow> slot_loop \<Rightarrow> slot_loop" where
  "emit_slots abbrev d [] st = st"
| "emit_slots abbrev d (j # js) st = emit_slots abbrev d js (emit_slot abbrev d j st)"

text \<open>
  The body of \<^verbatim>\<open>for day, hours in slot_dict.items()\<close>;
  \<^verbatim>\<open>start_times[day]\<close> raises \<^verbatim>\<open>KeyError\<close> on a missing day.
\<close>

fun days_loop :: "(string \<times> int) list \<Rightarrow> (string \<times> int) list \<Rightarrow> slot_loop \<Rightarrow> failure + slot_loop" where
  "days_loop [] start_times st = Inr st"
| "days_loop ((d, hours) # rest) start_times st =
     (case map_of start_times d of
        None \<Rightarrow> Inl KeyError
      | Some s \<Rightarrow>
          (let st' = emit_slots (abbrev_of d) d [0..<nat hours] (st\<lparr> start := s, day_count := 0 \<rparr>)
           in days_loop rest start_times
                (st'\<lparr> day_slot_counts := (day_slot_counts st')(lower d \<mapsto> day_count st') \<rparr>)))"

definition get_time_slots :: "(string \<times> int) list \<Rightarrow> (string \<times> int) list \<Rightarrow> failure + time_slots" where
  "get_time_slots slot_dict start_times =
     (case days_loop slot_dict start_times
             \<lparr> slot_names = [], slot_time = Map.empty, slot_to_day = Map.empty,
               day_slot_counts = Map.empty, idx = 0, start = 0, day_count = 0 \<rparr> of
        Inl e \<Rightarrow> Inl e
      | Inr st \<Rightarrow> Inr (time_slots.truncate st))"

section \<open>Engine input\<close>

text \<open>
  The input records of \<^verbatim>\<open>generate_college_timetable_with_sections\<close>. The fields the
  code converts with \<^verbatim>\<open>int(...)\<close> are integers here. A course may lack its
  \<^verbatim>\<open>section\<close> key, a teacher its hours, a section its room: the code reads them
  with \<^verbatim>\<open>.get\<close> and a default. The \<^verbatim>\<open>constraints\<close> dictionary is empty
  (falsy) when it has neither the \<^verbatim>\<open>working_days\<close> key nor any other key.
\<close>

record working_day =
  wd_day :: string
  wd_start_hr :: int
  wd_total_hours :: int

record constraints =
  working_days :: "working_day list option"
  other_keys :: "string list"

record course =
  c_subject :: string
  c_year :: string
  c_section :: "string option"
  c_teacher :: string
  c_lectures :: int
  c_duration :: int

record teacher_info =
  t_start_hr :: "int option"
  t_end_hr :: "int option"

record section_info =
  s_room :: "string option"

type_synonym teachers = "string \<rightharpoonup> teacher_info"

type_synonym sections = "string \<rightharpoonup> (string \<times> section_info) list"

section \<open>Demand Expander\<close>

record pcourse =
  p_name :: string
  p_subject :: string
  p_year :: string
  p_section :: string
  p_teacher :: string
  p_lectures :: int
  p_duration :: int
  p_start_hr :: int
  p_end_hr :: int

text \<open>The body of \<^verbatim>\<open>for course in courses\<close> that fills \<^verbatim>\<open>processed_courses\<close>.\<close>

definition process_course :: "teachers \<Rightarrow> course \<Rightarrow> pcourse" where
  "process_course teachers c =
     (let subject = c_subject c;
          year = c_year c;
          sect = (case c_section c of None \<Rightarrow> ''A'' | Some s \<Rightarrow> s);
          teacher = c_teacher c;
          teacher_info = (case teachers teacher of None \<Rightarrow> \<lparr> t_start_hr = None, t_end_hr = None \<rparr> | Some i \<Rightarrow> i);
          start_hr = (case t_start_hr teacher_info of None \<Rightarrow> 9 | Some h \<Rightarrow> h);
          end_hr = (case t_end_hr teacher_info of None \<Rightarrow> 17 | Some h \<Rightarrow> h)
      in \<lparr> p_name = subject @ ''_'' @ year @ ''_'' @ sect @ ''_'' @ teacher,
           p_subject = subject, p_year = year, p_section = sect, p_teacher = teacher,
           p_lectures = c_lectures c, p_duration = c_duration c,
           p_start_hr = start_hr, p_end_hr = end_hr \<rparr>)"

text \<open>\<^verbatim>\<open>f"{year}_{section}"\<close>\<close>

definition section_key :: "string \<Rightarrow> string \<Rightarrow> string" where
  "section_key year sect = year @ ''_'' @ sect"

text \<open>The loop that sums \<^verbatim>\<open>lectures * duration\<close> into \<^verbatim>\<open>section_requirements\<close>.\<close>

fun section_requirements :: "pcourse list \<Rightarrow> (string \<rightharpoonup> int) \<Rightarrow> (string \<rightharpoonup> int)" where
  "section_requirements [] reqs = reqs"
| "section_requirements (c # cs) reqs =
     (let k = section_key (p_year c) (p_section c);
          reqs' = (if reqs k = None then reqs(k \<mapsto> 0) else reqs)
      in section_requirements cs
           (reqs'(k \<mapsto> (case reqs' k of None \<Rightarrow> 0 | Some r \<Rightarrow> r) + p_lectures c * p_duration c)))"

definition years :: "string list" where
  "years = [''Year1'', ''Year2'', ''Year3'', ''Year4'']"

text \<open>\<^verbatim>\<open>sections.get(year, {'A': {}})\<close>\<close>

definition year_sections :: "sections \<Rightarrow> string \<Rightarrow> (string \<times> section_info) list" where
  "year_sections sections year =
     (case sections year of None \<Rightarrow> [(''A'', \<lparr> s_room = None \<rparr>)] | Some ss \<Rightarrow> ss)"

definition free_course :: "string \<Rightarrow> string \<Rightarrow> int \<Rightarrow> pcourse" where
  "free_course year section_name free_needed =
     \<lparr> p_name = ''Free_'' @ year @ ''_'' @ section_name,
       p_subject = ''Free'', p_year = year, p_section = section_name, p_teacher = ''None'',
       p_lectures = free_needed, p_duration = 1, p_start_hr = 0, p_end_hr = 24 \<rparr>"

text \<open>
  The free-period loop: for each of the four years and each section of the year, one
  ``Free'' course when the section uses fewer than \<^verbatim>\<open>num_slots\<close> slots. The loop
  only appends to \<^verbatim>\<open>processed_courses\<close>; \<^verbatim>\<open>section_requirements\<close> is not
  changed by it.
\<close>

definition free_for_section :: "(string \<rightharpoonup> int) \<Rightarrow> nat \<Rightarrow> string \<Rightarrow> string \<Rightarrow> pcourse list" where
  "free_for_section reqs num_slots year section_name =
     (let section_used = (case reqs (section_key year section_name) of None \<Rightarrow> 0 | Some r \<Rightarrow> r)
      in if section_used < int num_slots
         then [free_course year section_name (int num_slots - section_used)]
         else [])"

definition free_courses :: "sections \<Rightarrow> (string \<rightharpoonup> int) \<Rightarrow> nat \<Rightarrow> pcourse list" where
  "free_courses sections reqs num_slots =
     concat (map (\<lambda>year. concat (map (free_for_section reqs num_slots year)
                                       (map fst (year_sections sections year)))) years)"

definition all_courses :: "teachers \<Rightarrow> sections \<Rightarrow> bool \<Rightarrow> nat \<Rightarrow> course list \<Rightarrow> pcourse list" where
  "all_courses teachers sections allow_free num_slots courses =
     (let processed_courses = map (process_course teachers) courses;
          reqs = section_requirements processed_courses Map.empty
      in if allow_free then processed_courses @ free_courses sections reqs num_slots
         else processed_courses)"

section \<open>Domain Calculator\<close>

text \<open>
  Subscription \<^verbatim>\<open>xs[i]\<close> of a list: positions \<open>0 .. len - 1\<close> as they are, positions
  \<open>-len .. -1\<close> read from the back, every other integer raises \<^verbatim>\<open>IndexError\<close>.
\<close>

definition py_index :: "'a list \<Rightarrow> int \<Rightarrow> failure + 'a" where
  "py_index xs i =
     (if 0 \<le> i \<and> i < int (length xs) then Inr (xs ! nat i)
      else if i < 0 \<and> - int (length xs) \<le> i then Inr (xs ! nat (int (length xs) + i))
      else Inl IndexError)"

text \<open>Dictionary subscription \<^verbatim>\<open>d[k]\<close>.\<close>

definition py_lookup :: "('k \<rightharpoonup> 'v) \<Rightarrow> 'k \<Rightarrow> failure + 'v" where
  "py_lookup d k = (case d k of None \<Rightarrow> Inl KeyError | Some v \<Rightarrow> Inr v)"

text \<open>\<^verbatim>\<open>slot_to_day[slot_names[i]]\<close>\<close>

definition day_at :: "time_slots \<Rightarrow> int \<Rightarrow> failure + string" where
  "day_at ts i =
     (case py_index (slot_names ts) i of
        Inl e \<Rightarrow> Inl e
      | Inr n \<Rightarrow> py_lookup (slot_to_day ts) n)"

text \<open>
  The loop \<^verbatim>\<open>for t in range(s, end_idx + 1)\<close> with its \<^verbatim>\<open>break\<close>: the value of
  \<^verbatim>\<open>ok\<close> when the loop is left.
\<close>

fun window_ok :: "time_slots \<Rightarrow> pcourse \<Rightarrow> nat list \<Rightarrow> failure + bool" where
  "window_ok ts c [] = Inr True"
| "window_ok ts c (t # rest) =
     (case py_lookup (slot_time ts) t of
        Inl e \<Rightarrow> Inl e
      | Inr h \<Rightarrow> if h < p_start_hr c \<or> h \<ge> p_end_hr c then Inr False else window_ok ts c rest)"

text \<open>One round of \<^verbatim>\<open>for s in range(num_slots)\<close>: whether \<^verbatim>\<open>s\<close> is appended.\<close>

definition slot_allowed :: "time_slots \<Rightarrow> pcourse \<Rightarrow> nat \<Rightarrow> failure + bool" where
  "slot_allowed ts c s =
     (let end_idx = int s + p_duration c - 1
      in if end_idx \<ge> int (length (slot_names ts)) then Inr False
         else (case day_at ts (int s) of
                 Inl e \<Rightarrow> Inl e
               | Inr d1 \<Rightarrow>
                   (case day_at ts end_idx of
                      Inl e \<Rightarrow> Inl e
                    | Inr d2 \<Rightarrow>
                        if d1 \<noteq> d2 then Inr False
                        else window_ok ts c [s..<nat (end_idx + 1)])))"

fun allowed_loop :: "time_slots \<Rightarrow> pcourse \<Rightarrow> nat list \<Rightarrow> nat list \<Rightarrow> failure + nat list" where
  "allowed_loop ts c [] allowed_vals = Inr allowed_vals"
| "allowed_loop ts c (s # rest) allowed_vals =
     (case slot_allowed ts c s of
        Inl e \<Rightarrow> Inl e
      | Inr ok \<Rightarrow> allowed_loop ts c rest (if ok then allowed_vals @ [s] else allowed_vals))"

definition allowed_vals :: "time_slots \<Rightarrow> pcourse \<Rightarrow> failure + nat list" where
  "allowed_vals ts c = allowed_loop ts c [0..<length (slot_names ts)] []"

section \<open>Constraint Model Builder\<close>

text \<open>
  The model handed to the CP-SAT solver of OR-Tools, which is not part of the repository.
  Each occurrence has a start variable, an end variable and an interval variable, named
  here by the occurrence id, and one Boolean variable per allowed start value (the keys of
  \<^verbatim>\<open>start_at\<close>). The constraints are recorded as the calls that create them.
\<close>

record occ =
  occ_id :: nat
  o_name :: string
  o_subject :: string
  o_year :: string
  o_section :: string
  o_teacher :: string
  o_duration :: int

datatype cp_constraint =
    StartDomain nat "nat list"
  | EndBounds nat int int
  | Interval nat int
  | StartIs "nat \<times> nat"
  | StartIsNot "nat \<times> nat"
  | NoOverlap "(nat \<times> int) list"
  | AtMostOne "nat \<times> nat" "nat \<times> nat"

record cp_model =
  cp_constraints :: "cp_constraint list"
  occ_metadata :: "occ list"
  start_at :: "(nat \<times> nat) list"
  next_occ_id :: nat

text \<open>\<^verbatim>\<open>min(allowed_vals)\<close> and \<^verbatim>\<open>max(allowed_vals)\<close> of a non-empty list.\<close>

definition list_min :: "nat list \<Rightarrow> nat" where
  "list_min xs = fold min (tl xs) (hd xs)"

definition list_max :: "nat list \<Rightarrow> nat" where
  "list_max xs = fold max (tl xs) (hd xs)"

text \<open>The body of \<^verbatim>\<open>for k in range(course['lectures'])\<close>.\<close>

definition add_occurrence :: "pcourse \<Rightarrow> nat list \<Rightarrow> cp_model \<Rightarrow> cp_model" where
  "add_occurrence c vals m =
     (let i = next_occ_id m; dur = p_duration c
      in m\<lparr> cp_constraints := cp_constraints m
               @ [StartDomain i vals,
                  EndBounds i (int (list_min vals) + dur) (int (list_max vals) + dur),
                  Interval i dur]
               @ concat (map (\<lambda>s. [StartIs (i, s), StartIsNot (i, s)]) vals),
             occ_metadata := occ_metadata m
               @ [\<lparr> occ_id = i, o_name = p_name c, o_subject = p_subject c, o_year = p_year c,
                     o_section = p_section c, o_teacher = p_teacher c, o_duration = dur \<rparr>],
             start_at := start_at m @ map (\<lambda>s. (i, s)) vals,
             next_occ_id := i + 1 \<rparr>)"

definition no_feasible_slots :: "pcourse \<Rightarrow> string" where
  "no_feasible_slots c =
     ''No feasible slots for '' @ p_subject c @ '' (Year '' @ p_year c @ '', Section ''
       @ p_section c @ '').''"

text \<open>The body of \<^verbatim>\<open>for course in processed_courses\<close> under ``Create occurrences''.\<close>

fun create_occurrences :: "time_slots \<Rightarrow> pcourse list \<Rightarrow> cp_model \<Rightarrow> failure + cp_model" where
  "create_occurrences ts [] m = Inr m"
| "create_occurrences ts (c # cs) m =
     (case allowed_vals ts c of
        Inl e \<Rightarrow> Inl e
      | Inr vals \<Rightarrow>
          if vals = [] \<and> p_lectures c > 0 then Inl (ErrorDescriptor (no_feasible_slots c))
          else create_occurrences ts cs
                 (fold (\<lambda>k. add_occurrence c vals) [0..<nat (p_lectures c)] m))"

text \<open>
  Grouping into a dictionary of lists, as both constraint functions and the no-overlap
  block do: \<^verbatim>\<open>if key not in groups: groups[key] = []\<close> and then
  \<^verbatim>\<open>groups[key].append(x)\<close>.
\<close>

fun group_by :: "('a \<Rightarrow> string) \<Rightarrow> 'a list \<Rightarrow> (string \<times> 'a list) list \<Rightarrow> (string \<times> 'a list) list" where
  "group_by key [] groups = groups"
| "group_by key (x # xs) groups =
     (let k = key x;
          groups' = (if map_of groups k = None then AList.update k [] groups else groups)
      in group_by key xs
           (AList.update k ((case map_of groups' k of None \<Rightarrow> [] | Some g \<Rightarrow> g) @ [x]) groups'))"

text \<open>\<^verbatim>\<open>for i in range(len(xs)): for j in range(i + 1, len(xs))\<close>\<close>

definition index_pairs :: "'a list \<Rightarrow> ('a \<times> 'a) list" where
  "index_pairs xs =
     concat (map (\<lambda>i. map (\<lambda>j. (xs ! i, xs ! j)) [i + 1..<length xs]) [0..<length xs])"

text \<open>The two innermost loops over \<^verbatim>\<open>s1\<close> and \<^verbatim>\<open>s2\<close>, shared by both functions.\<close>

definition pair_conflicts :: "(nat \<times> nat) list \<Rightarrow> nat \<Rightarrow> occ \<times> occ \<Rightarrow> cp_constraint list" where
  "pair_conflicts start_at_keys num_slots p =
     (let occ1 = fst p; occ2 = snd p; dur1 = o_duration occ1; dur2 = o_duration occ2
      in concat (map (\<lambda>s1.
           if (occ_id occ1, s1) \<notin> set start_at_keys then []
           else concat (map (\<lambda>s2.
                  if (occ_id occ2, s2) \<notin> set start_at_keys then []
                  else (let end1 = int s1 + dur1; end2 = int s2 + dur2
                        in if \<not> (end1 \<le> int s2 \<or> end2 \<le> int s1)
                           then [AtMostOne (occ_id occ1, s1) (occ_id occ2, s2)]
                           else []))
                [0..<num_slots]))
         [0..<num_slots]))"

definition group_conflicts :: "(nat \<times> nat) list \<Rightarrow> nat \<Rightarrow> string \<times> occ list \<Rightarrow> cp_constraint list" where
  "group_conflicts start_at_keys num_slots g =
     (let occurrences = snd g
      in if length occurrences \<le> 1 then []
         else concat (map (pair_conflicts start_at_keys num_slots) (index_pairs occurrences)))"

definition apply_teacher_conflict_constraint :: "occ list \<Rightarrow> (nat \<times> nat) list \<Rightarrow> string list \<Rightarrow> cp_constraint list" where
  "apply_teacher_conflict_constraint occs start_at_keys names =
     concat (map (group_conflicts start_at_keys (length names)) (group_by o_teacher occs []))"

definition apply_section_constraint :: "occ list \<Rightarrow> (nat \<times> nat) list \<Rightarrow> string list \<Rightarrow> cp_constraint list" where
  "apply_section_constraint occs start_at_keys names =
     concat (map (group_conflicts start_at_keys (length names))
                 (group_by (\<lambda>oc. section_key (o_year oc) (o_section oc)) occs []))"

text \<open>The block ``Section-based no-overlap'': one \<^verbatim>\<open>AddNoOverlap\<close> per section key.\<close>

definition section_no_overlap :: "occ list \<Rightarrow> cp_constraint list" where
  "section_no_overlap occs =
     concat (map (\<lambda>g. if snd g = [] then []
                      else [NoOverlap (map (\<lambda>oc. (occ_id oc, o_duration oc)) (snd g))])
                 (group_by (\<lambda>oc. section_key (o_year oc) (o_section oc)) occs []))"

text \<open>
  The model under construction starts empty; \<^verbatim>\<open>occ_id\<close> starts at 0. After the
  occurrences, the three constraint blocks are added in the order of the source.
\<close>

definition empty_model :: cp_model where
  "empty_model = \<lparr> cp_constraints = [], occ_metadata = [], start_at = [], next_occ_id = 0 \<rparr>"

definition add_conflict_constraints :: "time_slots \<Rightarrow> cp_model \<Rightarrow> cp_model" where
  "add_conflict_constraints ts m =
     m\<lparr> cp_constraints := cp_constraints m
          @ section_no_overlap (occ_metadata m)
          @ apply_teacher_conflict_constraint (occ_metadata m) (start_at m) (slot_names ts)
          @ apply_section_constraint (occ_metadata m) (start_at m) (slot_names ts) \<rparr>"

section \<open>The solver\<close>

text \<open>
  \<^verbatim>\<open>CpSolver.Solve\<close> is a library call. It is a parameter of the model: a function
  from the time limit and the CP model to the status it returns and the values that
  \<^verbatim>\<open>solver.Value\<close> reads afterwards. What the library promises is that with status
  \<^verbatim>\<open>OPTIMAL\<close> or \<^verbatim>\<open>FEASIBLE\<close> the values satisfy every constraint of the model;
  \<open>cp_sat\<close> states that, with the meaning CP-SAT gives to each kind of constraint.
\<close>

datatype cp_status = UNKNOWN | MODEL_INVALID | FEASIBLE | INFEASIBLE | OPTIMAL

record assignment =
  start_val :: "nat \<Rightarrow> nat"
  end_val :: "nat \<Rightarrow> int"
  lit :: "nat \<times> nat \<Rightarrow> bool"

type_synonym solver = "int \<Rightarrow> cp_model \<Rightarrow> cp_status \<times> assignment"

definition disjoint_intervals :: "assignment \<Rightarrow> nat \<times> int \<Rightarrow> nat \<times> int \<Rightarrow> bool" where
  "disjoint_intervals a x y =
     (end_val a (fst x) \<le> int (start_val a (fst y)) \<or> end_val a (fst y) \<le> int (start_val a (fst x)))"

fun no_overlap :: "assignment \<Rightarrow> (nat \<times> int) list \<Rightarrow> bool" where
  "no_overlap a [] = True"
| "no_overlap a (x # xs) = (list_all (disjoint_intervals a x) xs \<and> no_overlap a xs)"

fun holds :: "assignment \<Rightarrow> cp_constraint \<Rightarrow> bool" where
  "holds a (StartDomain i vals) = (start_val a i \<in> set vals)"
| "holds a (EndBounds i lo hi) = (lo \<le> end_val a i \<and> end_val a i \<le> hi)"
| "holds a (Interval i dur) = (int (start_val a i) + dur = end_val a i)"
| "holds a (StartIs k) = (lit a k \<longrightarrow> start_val a (fst k) = snd k)"
| "holds a (StartIsNot k) = (\<not> lit a k \<longrightarrow> start_val a (fst k) \<noteq> snd k)"
| "holds a (NoOverlap ivs) = no_overlap a ivs"
| "holds a (AtMostOne k1 k2) = (\<not> (lit a k1 \<and> lit a k2))"

definition cp_sat :: "cp_model \<Rightarrow> assignment \<Rightarrow> bool" where
  "cp_sat m a = list_all (holds a) (cp_constraints m)"

section \<open>Result Assembler\<close>

record entry =
  e_slot :: string
  e_subject :: string
  e_teacher :: string
  e_section :: string
  e_room :: string
  e_start_time :: string
  e_end_time :: string

type_synonym response = "string \<rightharpoonup> (string \<rightharpoonup> (string \<rightharpoonup> entry list))"

definition week_days :: "string list" where
  "week_days = [''Monday'', ''Tuesday'', ''Wednesday'', ''Thursday'', ''Friday'', ''Saturday'', ''Sunday'']"

text \<open>\<^verbatim>\<open>{day.lower(): [] for day in [...]}\<close>\<close>

definition empty_week :: "string \<rightharpoonup> entry list" where
  "empty_week = fold (\<lambda>d w. w(lower d \<mapsto> [])) week_days Map.empty"

text \<open>The loop that creates \<^verbatim>\<open>response_data\<close> with its empty buckets.\<close>

definition init_response :: "sections \<Rightarrow> response" where
  "init_response sections =
     fold (\<lambda>year resp.
             resp(year \<mapsto> fold (\<lambda>section_name ys. ys(section_name \<mapsto> empty_week))
                                (map fst (year_sections sections year)) Map.empty))
          years Map.empty"

text \<open>\<^verbatim>\<open>f"{h:02d}"\<close>: at least two characters, padded with zeros, the sign counted.\<close>

definition fmt02d :: "int \<Rightarrow> string" where
  "fmt02d h =
     (if h < 0 then ''-'' @ str_nat (nat (- h))
      else if h < 10 then ''0'' @ str_nat (nat h)
      else str_nat (nat h))"

text \<open>The room lookup guarded by \<^verbatim>\<open>year in sections and section in sections[year]\<close>.\<close>

definition room_of :: "sections \<Rightarrow> string \<Rightarrow> string \<Rightarrow> string" where
  "room_of sections year sect =
     (case sections year of
        None \<Rightarrow> []
      | Some ss \<Rightarrow>
          (case map_of ss sect of
             None \<Rightarrow> []
           | Some info \<Rightarrow> (case s_room info of None \<Rightarrow> [] | Some r \<Rightarrow> r)))"

text \<open>The body of the loop \<^verbatim>\<open>for occ in occ_metadata\<close> that fills the buckets.\<close>

definition add_entry :: "time_slots \<Rightarrow> sections \<Rightarrow> assignment \<Rightarrow> occ \<Rightarrow> response \<Rightarrow> failure + response" where
  "add_entry ts sections a oc resp =
     (let start_idx = start_val a (occ_id oc)
      in case py_index (slot_names ts) (int start_idx) of
           Inl e \<Rightarrow> Inl e
         | Inr slot_name \<Rightarrow>
         (case py_lookup (slot_to_day ts) slot_name of
           Inl e \<Rightarrow> Inl e
         | Inr d \<Rightarrow>
         (case py_lookup (slot_time ts) start_idx of
           Inl e \<Rightarrow> Inl e
         | Inr start_hr \<Rightarrow>
            (let end_hr = start_hr + o_duration oc;
                 room = room_of sections (o_year oc) (o_section oc);
                 e = \<lparr> e_slot = slot_name, e_subject = o_subject oc, e_teacher = o_teacher oc,
                       e_section = o_section oc, e_room = room,
                       e_start_time = fmt02d start_hr @ '':00'',
                       e_end_time = fmt02d end_hr @ '':00'' \<rparr>
             in case resp (o_year oc) of
                  None \<Rightarrow> Inr resp
                | Some ys \<Rightarrow>
                   (case ys (o_section oc) of
                      None \<Rightarrow> Inr resp
                    | Some ds \<Rightarrow>
                       (case ds d of
                          None \<Rightarrow> Inl KeyError
                        | Some bucket \<Rightarrow>
                            Inr (resp(o_year oc \<mapsto> ys(o_section oc \<mapsto> ds(d \<mapsto> bucket @ [e]))))))))))"

fun add_entries :: "time_slots \<Rightarrow> sections \<Rightarrow> assignment \<Rightarrow> occ list \<Rightarrow> response \<Rightarrow> failure + response" where
  "add_entries ts sections a [] resp = Inr resp"
| "add_entries ts sections a (oc # ocs) resp =
     (case add_entry ts sections a oc resp of
        Inl e \<Rightarrow> Inl e
      | Inr resp' \<Rightarrow> add_entries ts sections a ocs resp')"

text \<open>
  ``Sort schedules by time'': every bucket is sorted in place on the string
  \<^verbatim>\<open>start_time\<close>. Python's sort is stable and compares strings by code point, which
  is what \<open>sort_key\<close> does on \<open>char list\<close> with the orders of \<open>Char_ord\<close> and
  \<open>List_Lexorder\<close>.
\<close>

definition sort_buckets :: "response \<Rightarrow> response" where
  "sort_buckets resp =
     (\<lambda>year. map_option
        (\<lambda>ys. \<lambda>sect. map_option
           (\<lambda>ds. \<lambda>d. map_option (sort_key e_start_time) (ds d)) (ys sect)) (resp year))"

definition build_response :: "time_slots \<Rightarrow> sections \<Rightarrow> assignment \<Rightarrow> occ list \<Rightarrow> failure + response" where
  "build_response ts sections a occs =
     (case add_entries ts sections a occs (init_response sections) of
        Inl e \<Rightarrow> Inl e
      | Inr resp \<Rightarrow> Inr (sort_buckets resp))"

section \<open>The engine: \<^verbatim>\<open>generate_college_timetable_with_sections\<close>\<close>

definition slot_counts_by_day :: "working_day list \<Rightarrow> (string \<times> int) list" where
  "slot_counts_by_day wds = fold (\<lambda>d. AList.update (wd_day d) (wd_total_hours d)) wds []"

definition start_times_of :: "working_day list \<Rightarrow> (string \<times> int) list" where
  "start_times_of wds = fold (\<lambda>d. AList.update (wd_day d) (wd_start_hr d)) wds []"

text \<open>Everything up to the call of the solver: the slot table and the CP model, or a failure.\<close>

definition build_model :: "constraints \<Rightarrow> course list \<Rightarrow> teachers \<Rightarrow> sections \<Rightarrow> bool \<Rightarrow> failure + time_slots \<times> cp_model" where
  "build_model constraints courses teachers sections allow_free =
     (if (working_days constraints = None \<and> other_keys constraints = []) \<or> courses = []
      then Inl (ErrorDescriptor ''No constraints or courses provided.'')
      else (let wds = (case working_days constraints of None \<Rightarrow> [] | Some w \<Rightarrow> w)
            in if wds = [] then Inl (ErrorDescriptor ''No working days configured.'')
               else (case get_time_slots (slot_counts_by_day wds) (start_times_of wds) of
                       Inl e \<Rightarrow> Inl e
                     | Inr ts \<Rightarrow>
                         (case create_occurrences ts
                                 (all_courses teachers sections allow_free (length (slot_names ts)) courses)
                                 empty_model of
                            Inl e \<Rightarrow> Inl e
                          | Inr m \<Rightarrow> Inr (ts, add_conflict_constraints ts m)))))"

definition generate_college_timetable_with_sections ::
  "solver \<Rightarrow> constraints \<Rightarrow> course list \<Rightarrow> teachers \<Rightarrow> sections \<Rightarrow> bool \<Rightarrow> int \<Rightarrow> failure + response" where
  "generate_college_timetable_with_sections solve constraints courses teachers sections allow_free max_time_seconds =
     (case build_model constraints courses teachers sections allow_free of
        Inl e \<Rightarrow> Inl e
      | Inr (ts, m) \<Rightarrow>
          (let (result, a) = solve max_time_seconds m
           in if result \<noteq> OPTIMAL \<and> result \<noteq> FEASIBLE
              then Inl (ErrorDescriptor ''No valid timetable found. Try adjusting constraints or reducing conflicts.'')
              else build_response ts sections a (occ_metadata m)))"

section \<open>Notions used in the statements\<close>

text \<open>
  The clock hours one day receives, following the loop: \<open>hours_seq s n\<close> are the hours
  of \<open>n\<close> consecutive slots when the counter \<^verbatim>\<open>start\<close> enters the loop as \<open>s\<close>;
  \<open>hour_at s j\<close> is the closed form for slot \<open>j\<close>. \<open>day_offset sd k\<close> is the number of
  slots of the days before day \<open>k\<close> of the dictionary \<open>sd\<close>.
\<close>

fun hours_seq :: "int \<Rightarrow> nat \<Rightarrow> int list" where
  "hours_seq s 0 = []"
| "hours_seq s (Suc n) = skip_lunch s # hours_seq (skip_lunch s + 1) n"

definition hour_at :: "int \<Rightarrow> nat \<Rightarrow> int" where
  "hour_at s j = s + int j + (if s \<le> 12 \<and> 12 \<le> s + int j then 1 else 0)"

definition slot_name_of :: "string \<Rightarrow> nat \<Rightarrow> string" where
  "slot_name_of ab j = ab @ str_nat (j + 1)"

definition day_names :: "string \<times> int \<Rightarrow> string list" where
  "day_names dh = map (slot_name_of (abbrev_of (fst dh))) [0..<nat (snd dh)]"

definition day_hours :: "(string \<times> int) list \<Rightarrow> string \<times> int \<Rightarrow> int list" where
  "day_hours stm dh = hours_seq (case map_of stm (fst dh) of None \<Rightarrow> 0 | Some s \<Rightarrow> s) (nat (snd dh))"

definition day_offset :: "(string \<times> int) list \<Rightarrow> nat \<Rightarrow> nat" where
  "day_offset sd k = sum_list (map (\<lambda>dh. nat (snd dh)) (take k sd))"

text \<open>
  The Domain Calculator on a processed course: the day label a slot carries, the window
  \<open>start_hr \<le> h < end_hr\<close> recorded in the course, and what makes \<open>s\<close> a legal start
  for it. \<open>wf_slots\<close> says that both slot dictionaries have an entry for every slot.
\<close>

definition day_label :: "time_slots \<Rightarrow> nat \<Rightarrow> string option" where
  "day_label ts i = slot_to_day ts (slot_names ts ! i)"

definition in_window :: "time_slots \<Rightarrow> pcourse \<Rightarrow> nat \<Rightarrow> bool" where
  "in_window ts c t = (case slot_time ts t of None \<Rightarrow> False | Some h \<Rightarrow> p_start_hr c \<le> h \<and> h < p_end_hr c)"

definition legal_start :: "time_slots \<Rightarrow> pcourse \<Rightarrow> nat \<Rightarrow> bool" where
  "legal_start ts c s =
     (let last_idx = int s + p_duration c - 1
      in 0 \<le> last_idx \<and> last_idx < int (length (slot_names ts))
       \<and> day_label ts s = day_label ts (nat last_idx)
       \<and> (\<forall>t\<in>{s..nat last_idx}. in_window ts c t))"

definition wf_slots :: "time_slots \<Rightarrow> bool" where
  "wf_slots ts = ((\<forall>i<length (slot_names ts). slot_time ts i \<noteq> None)
                \<and> (\<forall>nm\<in>set (slot_names ts). slot_to_day ts nm \<noteq> None))"

text \<open>
  The same in the words of the description, with no processed course in it:
  \<open>legal ts d w s\<close> for a duration \<open>d\<close> and a window \<open>w\<close>, where \<open>None\<close> is the
  unrestricted window and \<open>Some (lo, hi)\<close> the hours \<open>lo \<le> h < hi\<close>. The window of a
  teacher is \<^verbatim>\<open>start_hr\<close> and \<^verbatim>\<open>end_hr\<close> of the teacher's entry, 9 and 17 where the
  entry or the field is missing.
\<close>

definition teacher_window :: "teachers \<Rightarrow> string \<Rightarrow> int \<times> int" where
  "teacher_window teachers t =
     (case teachers t of
        None \<Rightarrow> (9, 17)
      | Some i \<Rightarrow> (case t_start_hr i of None \<Rightarrow> 9 | Some h \<Rightarrow> h,
                   case t_end_hr i of None \<Rightarrow> 17 | Some h \<Rightarrow> h))"

definition legal :: "time_slots \<Rightarrow> int \<Rightarrow> (int \<times> int) option \<Rightarrow> nat \<Rightarrow> bool" where
  "legal ts d w s =
     (let last_idx = int s + d - 1
      in 0 \<le> last_idx \<and> last_idx < int (length (slot_names ts))
       \<and> day_label ts s = day_label ts (nat last_idx)
       \<and> (case w of
            None \<Rightarrow> True
          | Some (lo, hi) \<Rightarrow>
              \<forall>t\<in>{s..nat last_idx}. case slot_time ts t of None \<Rightarrow> False | Some h \<Rightarrow> lo \<le> h \<and> h < hi))"

text \<open>
  The occurrences the loop ``Create occurrences'' produces, as a list of pairs of a course
  and an occurrence id: \<open>expand i cs\<close> numbers the lectures of the courses \<open>cs\<close> from \<open>i\<close> on.
  \<open>dom_of\<close> is the domain of a course when its computation does not raise, and
  \<open>infeasible\<close> is the condition of the error return of that loop.
\<close>

definition occ_of :: "pcourse \<Rightarrow> nat \<Rightarrow> occ" where
  "occ_of c i = \<lparr> occ_id = i, o_name = p_name c, o_subject = p_subject c, o_year = p_year c,
                  o_section = p_section c, o_teacher = p_teacher c, o_duration = p_duration c \<rparr>"

definition occ_constraints :: "pcourse \<Rightarrow> nat list \<Rightarrow> nat \<Rightarrow> cp_constraint list" where
  "occ_constraints c vals i =
     [StartDomain i vals,
      EndBounds i (int (list_min vals) + p_duration c) (int (list_max vals) + p_duration c),
      Interval i (p_duration c)]
     @ concat (map (\<lambda>s. [StartIs (i, s), StartIsNot (i, s)]) vals)"

fun expand :: "nat \<Rightarrow> pcourse list \<Rightarrow> (pcourse \<times> nat) list" where
  "expand i [] = []"
| "expand i (c # cs) =
     map (Pair c) [i..<i + nat (p_lectures c)] @ expand (i + nat (p_lectures c)) cs"

definition dom_of :: "time_slots \<Rightarrow> pcourse \<Rightarrow> nat list" where
  "dom_of ts c = (case allowed_vals ts c of Inl e \<Rightarrow> [] | Inr vals \<Rightarrow> vals)"

definition infeasible :: "time_slots \<Rightarrow> pcourse \<Rightarrow> bool" where
  "infeasible ts c = (p_lectures c > 0 \<and> allowed_vals ts c = Inr [])"

text \<open>The three failure descriptors the engine returns after its input checks.\<close>

definition no_valid_timetable :: string where
  "no_valid_timetable = ''No valid timetable found. Try adjusting constraints or reducing conflicts.''"

text \<open>The inputs used in the closed examples.\<close>

definition one_slot_at :: "int \<Rightarrow> constraints" where
  "one_slot_at h =
     \<lparr> working_days = Some [\<lparr> wd_day = ''Monday'', wd_start_hr = h, wd_total_hours = 1 \<rparr>],
       other_keys = [] \<rparr>"

definition maths_for :: "string \<Rightarrow> course" where
  "maths_for sect =
     \<lparr> c_subject = ''Maths'', c_year = ''Year1'', c_section = Some sect, c_teacher = ''T'',
       c_lectures = 1, c_duration = 1 \<rparr>"


definition only_year1 :: "string list \<Rightarrow> sections" where
  "only_year1 names =
     [''Year1'' \<mapsto> map (\<lambda>n. (n, \<lparr> s_room = None \<rparr>)) names,
      ''Year2'' \<mapsto> [], ''Year3'' \<mapsto> [], ''Year4'' \<mapsto> []]"

definition all_starts :: "nat \<Rightarrow> assignment" where
  "all_starts s = \<lparr> start_val = (\<lambda>i. s), end_val = (\<lambda>i. int s + 1), lit = (\<lambda>k. snd k = s) \<rparr>"

text \<open>
  The Result Assembler in closed form. \<open>bucket resp y sec d\<close> reads
  \<^verbatim>\<open>response_data[y][sec][d]\<close>; \<open>in_response\<close> is the guard
  \<^verbatim>\<open>year in response_data and section in response_data[year]\<close>; \<open>entry_of\<close> and
  \<open>day_of\<close> are the dictionary and the day the loop body computes for an occurrence.
\<close>

definition bucket :: "response \<Rightarrow> string \<Rightarrow> string \<Rightarrow> string \<Rightarrow> entry list option" where
  "bucket resp y sec d =
     (case resp y of
        None \<Rightarrow> None
      | Some ys \<Rightarrow> (case ys sec of None \<Rightarrow> None | Some ds \<Rightarrow> ds d))"

definition in_response :: "sections \<Rightarrow> occ \<Rightarrow> bool" where
  "in_response sections oc =
     (o_year oc \<in> set years \<and> o_section oc \<in> set (map fst (year_sections sections (o_year oc))))"

definition start_hour :: "time_slots \<Rightarrow> assignment \<Rightarrow> occ \<Rightarrow> int" where
  "start_hour ts a oc = (case slot_time ts (start_val a (occ_id oc)) of None \<Rightarrow> 0 | Some h \<Rightarrow> h)"

definition day_of :: "time_slots \<Rightarrow> assignment \<Rightarrow> occ \<Rightarrow> string" where
  "day_of ts a oc =
     (case slot_to_day ts (slot_names ts ! start_val a (occ_id oc)) of None \<Rightarrow> [] | Some d \<Rightarrow> d)"

definition entry_of :: "time_slots \<Rightarrow> sections \<Rightarrow> assignment \<Rightarrow> occ \<Rightarrow> entry" where
  "entry_of ts sections a oc =
     \<lparr> e_slot = slot_names ts ! start_val a (occ_id oc),
       e_subject = o_subject oc, e_teacher = o_teacher oc, e_section = o_section oc,
       e_room = room_of sections (o_year oc) (o_section oc),
       e_start_time = fmt02d (start_hour ts a oc) @ '':00'',
       e_end_time = fmt02d (start_hour ts a oc + o_duration oc) @ '':00'' \<rparr>"

definition lower_week :: "string list" where
  "lower_week = map lower week_days"

text \<open>
  The shape \<^verbatim>\<open>response_data\<close> has from its creation on: the four years, under each
  its sections, under each section the seven days.
\<close>

definition shaped :: "sections \<Rightarrow> response \<Rightarrow> bool" where
  "shaped sections resp =
     ((\<forall>y. resp y \<noteq> None \<longleftrightarrow> y \<in> set years)
    \<and> (\<forall>y ys sec. resp y = Some ys \<longrightarrow>
          (ys sec \<noteq> None \<longleftrightarrow> sec \<in> set (map fst (year_sections sections y))))
    \<and> (\<forall>y ys sec ds. resp y = Some ys \<longrightarrow> ys sec = Some ds \<longrightarrow> dom ds = set lower_week))"

text \<open>Appending \<open>f y sec d\<close> to every bucket \<open>(y, sec, d)\<close> that exists.\<close>

definition extend_buckets :: "(string \<Rightarrow> string \<Rightarrow> string \<Rightarrow> entry list) \<Rightarrow> response \<Rightarrow> response" where
  "extend_buckets f resp =
     (\<lambda>y. map_option
        (\<lambda>ys. \<lambda>sec. map_option
           (\<lambda>ds. \<lambda>d. map_option (\<lambda>b. b @ f y sec d) (ds d)) (ys sec)) (resp y))"

definition entries_for :: "time_slots \<Rightarrow> sections \<Rightarrow> assignment \<Rightarrow> occ list \<Rightarrow> string \<Rightarrow> string \<Rightarrow> string \<Rightarrow> entry list" where
  "entries_for ts sections a occs y sec d =
     map (entry_of ts sections a)
       (filter (\<lambda>oc. o_year oc = y \<and> o_section oc = sec \<and> day_of ts a oc = d) occs)"

text \<open>
  All pairs of a list in which the first component stands before the second, and the
  overlap test of the two constraint functions on two placements.
\<close>

fun ordered_pairs :: "'a list \<Rightarrow> ('a \<times> 'a) list" where
  "ordered_pairs [] = []"
| "ordered_pairs (x # xs) = map (Pair x) xs @ ordered_pairs xs"

definition overlap :: "int \<Rightarrow> int \<Rightarrow> int \<Rightarrow> int \<Rightarrow> bool" where
  "overlap s1 d1 s2 d2 = (\<not> (s1 + d1 \<le> s2 \<or> s2 + d2 \<le> s1))"

text \<open>
  The calendars the data-entry layer supplies: each working day is one of the seven days
  of the week, and no day is given twice. \<open>slot_hour\<close> reads \<^verbatim>\<open>slot_time[i]\<close>.
\<close>

definition standard_days :: "working_day list \<Rightarrow> bool" where
  "standard_days wds = (distinct (map wd_day wds) \<and> set (map wd_day wds) \<subseteq> set week_days)"

definition slot_hour :: "time_slots \<Rightarrow> nat \<Rightarrow> int" where
  "slot_hour ts i = (case slot_time ts i of None \<Rightarrow> 0 | Some h \<Rightarrow> h)"

definition good_calendar :: "time_slots \<Rightarrow> bool" where
  "good_calendar ts =
     (wf_slots ts
    \<and> (\<forall>i<length (slot_names ts). \<exists>l\<in>set lower_week. day_label ts i = Some l)
    \<and> (\<forall>j<length (slot_names ts). \<forall>i\<le>j. day_label ts i = day_label ts j \<longrightarrow>
          slot_hour ts i + int (j - i) \<le> slot_hour ts j))"

text \<open>
  What the step from slot indices to clock hours needs of a calendar: of two slots with the
  same day label, the one \<open>j - i\<close> places later is at least \<open>j - i\<close> hours later.
  \<open>within_day\<close> says that every slot of the calendar has a clock hour of the day, 0 to 23.
\<close>

definition hours_follow_slots :: "time_slots \<Rightarrow> bool" where
  "hours_follow_slots ts =
     list_all (\<lambda>j. list_all (\<lambda>i. day_label ts i = day_label ts j \<longrightarrow>
                                   slot_hour ts i + int (j - i) \<le> slot_hour ts j) [0..<Suc j])
       [0..<length (slot_names ts)]"

definition within_day :: "time_slots \<Rightarrow> bool" where
  "within_day ts =
     list_all (\<lambda>i. 0 \<le> slot_hour ts i \<and> slot_hour ts i < 24) [0..<length (slot_names ts)]"

definition is_digit :: "char \<Rightarrow> bool" where
  "is_digit c = (c \<in> set ''0123456789'')"

text \<open>
  Reading a clock time \<^verbatim>\<open>"HH:00"\<close> back: the integer written before the colon.
\<close>

definition digit_value :: "char \<Rightarrow> nat" where
  "digit_value c = length (takeWhile (\<lambda>d. d \<noteq> c) ''0123456789'')"

definition parse_nat :: "string \<Rightarrow> nat" where
  "parse_nat s = fold (\<lambda>c n. 10 * n + digit_value c) s 0"

definition clock_hour :: "string \<Rightarrow> int" where
  "clock_hour s =
     (let h = takeWhile (\<lambda>c. c \<noteq> CHR '':'') s
      in case h of
           [] \<Rightarrow> 0
         | c # cs \<Rightarrow> if c = CHR ''-'' then - int (parse_nat cs) else int (parse_nat h))"

definition two_digit_hours :: "time_slots \<Rightarrow> bool" where
  "two_digit_hours ts =
     list_all (\<lambda>i. 0 \<le> slot_hour ts i \<and> slot_hour ts i < 100) [0..<length (slot_names ts)]"

text \<open>The input and the solver answer of the closed examples with a returned schedule.\<close>

definition morning :: constraints where
  "morning =
     \<lparr> working_days = Some [\<lparr> wd_day = ''Monday'', wd_start_hr = 9, wd_total_hours = 3 \<rparr>],
       other_keys = [] \<rparr>"

definition starts_of :: "nat list \<Rightarrow> int list \<Rightarrow> assignment" where
  "starts_of ss ds =
     \<lparr> start_val = (\<lambda>i. ss ! i),
       end_val = (\<lambda>i. int (ss ! i) + ds ! i),
       lit = (\<lambda>k. ss ! fst k = snd k) \<rparr>"

text \<open>The clock hours an entry of the schedule shows.\<close>

definition entry_start :: "entry \<Rightarrow> int" where
  "entry_start e = clock_hour (e_start_time e)"

definition entry_end :: "entry \<Rightarrow> int" where
  "entry_end e = clock_hour (e_end_time e)"

text \<open>The occurrences behind a bucket, in the order of the bucket.\<close>

definition bucket_occs :: "time_slots \<Rightarrow> sections \<Rightarrow> assignment \<Rightarrow> occ list \<Rightarrow> string \<Rightarrow> string \<Rightarrow> string \<Rightarrow> occ list" where
  "bucket_occs ts sections a occs y sec d =
     sort_key (\<lambda>oc. e_start_time (entry_of ts sections a oc))
       (filter (\<lambda>oc. o_year oc = y \<and> o_section oc = sec \<and> day_of ts a oc = d) occs)"

text \<open>
  All entries of one year and section over the week, the section a course belongs to
  (\<^verbatim>\<open>course.get("section", "A")\<close>), and the slots a set of placed occurrences covers.
\<close>

definition week_entries :: "response \<Rightarrow> string \<Rightarrow> string \<Rightarrow> entry list" where
  "week_entries resp y sec =
     concat (map (\<lambda>d. case bucket resp y sec d of None \<Rightarrow> [] | Some b \<Rightarrow> b) lower_week)"

definition course_section :: "course \<Rightarrow> string" where
  "course_section c = (case c_section c of None \<Rightarrow> ''A'' | Some s \<Rightarrow> s)"

definition in_section :: "string \<Rightarrow> string \<Rightarrow> course \<Rightarrow> bool" where
  "in_section y sec c = (c_year c = y \<and> course_section c = sec)"

definition covered :: "assignment \<Rightarrow> occ \<Rightarrow> nat set" where
  "covered a oc = {start_val a (occ_id oc)..<start_val a (occ_id oc) + nat (o_duration oc)}"

text \<open>A course of one lecture of two slots, for the closed examples.\<close>

definition double_maths :: course where
  "double_maths =
     \<lparr> c_subject = ''Maths'', c_year = ''Year1'', c_section = Some ''A'', c_teacher = ''T'',
       c_lectures = 1, c_duration = 2 \<rparr>"

text \<open>A sections map with a single section, as one ``Add Section'' of the form leaves it.\<close>

definition year1_only :: sections where
  "year1_only = [''Year1'' \<mapsto> [(''A'', \<lparr> s_room = None \<rparr>)]]"

text \<open>
  Further inputs of the closed examples: a teacher available from 9 to 13, courses of
  duration 0 and -1, a Monday of two slots from hour 99 with a teacher for it, a course
  of two lectures, a calendar with the days \<^verbatim>\<open>Monday\<close> and \<^verbatim>\<open>MONDAY\<close>, a course whose
  year label holds an underscore, and a course with a negative number of lectures.
\<close>

definition short_day_teacher :: teachers where
  "short_day_teacher = [''T'' \<mapsto> \<lparr> t_start_hr = Some 9, t_end_hr = Some 13 \<rparr>]"

definition no_time_maths :: course where
  "no_time_maths =
     \<lparr> c_subject = ''Maths'', c_year = ''Year1'', c_section = Some ''A'', c_teacher = ''T'',
       c_lectures = 1, c_duration = 0 \<rparr>"


definition late_evening :: constraints where
  "late_evening =
     \<lparr> working_days = Some [\<lparr> wd_day = ''Monday'', wd_start_hr = 99, wd_total_hours = 2 \<rparr>],
       other_keys = [] \<rparr>"

definition night_teacher :: teachers where
  "night_teacher = [''T'' \<mapsto> \<lparr> t_start_hr = Some 99, t_end_hr = Some 101 \<rparr>]"

definition two_maths :: course where
  "two_maths =
     \<lparr> c_subject = ''Maths'', c_year = ''Year1'', c_section = Some ''A'', c_teacher = ''T'',
       c_lectures = 2, c_duration = 1 \<rparr>"

definition twice_monday :: constraints where
  "twice_monday =
     \<lparr> working_days = Some [\<lparr> wd_day = ''Monday'', wd_start_hr = 9, wd_total_hours = 1 \<rparr>,
                            \<lparr> wd_day = ''MONDAY'', wd_start_hr = 9, wd_total_hours = 1 \<rparr>],
       other_keys = [] \<rparr>"

definition merged_maths :: course where
  "merged_maths =
     \<lparr> c_subject = ''Maths'', c_year = ''Year1_X'', c_section = Some ''Y'', c_teacher = ''T'',
       c_lectures = 1, c_duration = 1 \<rparr>"

definition negative_maths :: course where
  "negative_maths =
     \<lparr> c_subject = ''Maths'', c_year = ''Year1'', c_section = Some ''A'', c_teacher = ''T'',
       c_lectures = - 1, c_duration = - 1 \<rparr>"

section \<open>Calendar Builder: properties\<close>

lemma skip_lunch_eq: "skip_lunch s = (if s = 12 then 13 else s)"
  by (simp add: skip_lunch.simps)

lemma length_hours_seq [simp]: "length (hours_seq s n) = n"
  by (induction n arbitrary: s) auto

lemma hours_seq_nth: "j < n \<Longrightarrow> hours_seq s n ! j = hour_at s j"
proof (induction n arbitrary: s j)
  case 0
  then show ?case by simp
next
  case (Suc n)
  show ?case
  proof (cases j)
    case 0
    then show ?thesis by (simp add: hour_at_def skip_lunch_eq)
  next
    case (Suc j')
    with Suc.prems have "j' < n" by simp
    from Suc.IH [OF this] Suc show ?thesis
      by (auto simp: hour_at_def skip_lunch_eq)
  qed
qed

lemma emit_slots_names:
  "slot_names (emit_slots ab d js st) = slot_names st @ map (slot_name_of ab) js"
  by (induction js arbitrary: st) (auto simp: emit_slot_def Let_def slot_name_of_def)

lemma emit_slots_idx: "idx (emit_slots ab d js st) = idx st + length js"
  by (induction js arbitrary: st) (auto simp: emit_slot_def Let_def)

lemma emit_slots_day_count: "day_count (emit_slots ab d js st) = day_count st + length js"
  by (induction js arbitrary: st) (auto simp: emit_slot_def Let_def)

lemma emit_slots_counts: "day_slot_counts (emit_slots ab d js st) = day_slot_counts st"
  by (induction js arbitrary: st) (auto simp: emit_slot_def Let_def)

lemma emit_slots_time:
  "slot_time (emit_slots ab d js st) i =
     (if idx st \<le> i \<and> i < idx st + length js
      then Some (hours_seq (start st) (length js) ! (i - idx st))
      else slot_time st i)"
proof (induction js arbitrary: st)
  case Nil
  then show ?case by auto
next
  case (Cons j js)
  show ?case
    by (simp add: Cons.IH) (auto simp: emit_slot_def Let_def nth_Cons' Suc_diff_le)
qed

lemma emit_slots_to_day:
  "slot_to_day (emit_slots ab d js st) nm =
     (if nm \<in> slot_name_of ab ` set js then Some (lower d) else slot_to_day st nm)"
  by (induction js arbitrary: st) (auto simp: emit_slot_def Let_def slot_name_of_def)

lemma length_day_names [simp]: "length (day_names dh) = nat (snd dh)"
  by (simp add: day_names_def)

lemma length_day_hours [simp]: "length (day_hours stm dh) = nat (snd dh)"
  by (simp add: day_hours_def)

lemma length_concat_names_hours:
  "length (concat (map (day_hours stm) sd)) = length (concat (map day_names sd))"
  by (induction sd) auto

lemma days_loop_names:
  "days_loop sd stm st = Inr st' \<Longrightarrow> slot_names st' = slot_names st @ concat (map day_names sd)"
proof (induction sd arbitrary: st)
  case Nil
  then show ?case by simp
next
  case (Cons dh sd)
  obtain d h where dh: "dh = (d, h)" by (cases dh)
  from Cons.prems obtain s where s: "map_of stm d = Some s"
    by (auto simp: dh split: option.splits)
  have dn: "day_names (d, h) = map (slot_name_of (abbrev_of d)) [0..<nat h]"
    by (simp add: day_names_def)
  from Cons.prems show ?case
    by (simp add: dh s Let_def) (drule Cons.IH, simp add: emit_slots_names dn)
qed

lemma days_loop_idx:
  "days_loop sd stm st = Inr st' \<Longrightarrow> idx st' = idx st + length (concat (map day_names sd))"
proof (induction sd arbitrary: st)
  case Nil
  then show ?case by simp
next
  case (Cons dh sd)
  obtain d h where dh: "dh = (d, h)" by (cases dh)
  from Cons.prems obtain s where s: "map_of stm d = Some s"
    by (auto simp: dh split: option.splits)
  from Cons.prems show ?case
    by (simp add: dh s Let_def) (drule Cons.IH, simp add: emit_slots_idx)
qed

lemma days_loop_time:
  "days_loop sd stm st = Inr st' \<Longrightarrow>
   slot_time st' i =
     (if idx st \<le> i \<and> i < idx st + length (concat (map day_names sd))
      then Some (concat (map (day_hours stm) sd) ! (i - idx st))
      else slot_time st i)"
proof (induction sd arbitrary: st)
  case Nil
  then show ?case by auto
next
  case (Cons dh sd)
  obtain d h where dh: "dh = (d, h)" by (cases dh)
  from Cons.prems obtain s where s: "map_of stm d = Some s"
    by (auto simp: dh split: option.splits)
  define st1 where "st1 = emit_slots (abbrev_of d) d [0..<nat h] (st\<lparr>start := s, day_count := 0\<rparr>)"
  define st2 where "st2 = st1\<lparr>day_slot_counts := (day_slot_counts st1)(lower d \<mapsto> day_count st1)\<rparr>"
  from Cons.prems have run: "days_loop sd stm st2 = Inr st'"
    by (simp add: dh s Let_def st1_def st2_def)
  have idx2: "idx st2 = idx st + nat h"
    by (simp add: st2_def st1_def emit_slots_idx)
  have time2: "slot_time st2 i =
      (if idx st \<le> i \<and> i < idx st + nat h then Some (hours_seq s (nat h) ! (i - idx st)) else slot_time st i)"
    by (simp add: st2_def st1_def emit_slots_time)
  have hd: "day_hours stm (d, h) = hours_seq s (nat h)"
    by (simp add: day_hours_def s)
  show ?case
    unfolding Cons.IH [OF run] idx2 time2
    by (auto simp: dh hd nth_append length_concat_names_hours)
qed

lemma days_loop_starts:
  "days_loop sd stm st = Inr st' \<Longrightarrow> dh \<in> set sd \<Longrightarrow> map_of stm (fst dh) \<noteq> None"
proof (induction sd arbitrary: st)
  case Nil
  then show ?case by simp
next
  case (Cons x sd)
  obtain d h where x: "x = (d, h)" by (cases x)
  from Cons.prems(1) obtain s where s: "map_of stm d = Some s"
    by (auto simp: x split: option.splits)
  from Cons.prems(1) obtain st2 where run: "days_loop sd stm st2 = Inr st'"
    by (simp add: x s Let_def)
  from Cons.prems(2) show ?case
    using Cons.IH [OF run] s x by auto
qed

lemma days_loop_to_day_dom:
  "days_loop sd stm st = Inr st' \<Longrightarrow>
   dom (slot_to_day st') = dom (slot_to_day st) \<union> set (concat (map day_names sd))"
proof (induction sd arbitrary: st)
  case Nil
  then show ?case by simp
next
  case (Cons x sd)
  obtain d h where x: "x = (d, h)" by (cases x)
  from Cons.prems(1) obtain s where s: "map_of stm d = Some s"
    by (auto simp: x split: option.splits)
  define st1 where "st1 = emit_slots (abbrev_of d) d [0..<nat h] (st\<lparr>start := s, day_count := 0\<rparr>)"
  define st2 where "st2 = st1\<lparr>day_slot_counts := (day_slot_counts st1)(lower d \<mapsto> day_count st1)\<rparr>"
  from Cons.prems have run: "days_loop sd stm st2 = Inr st'"
    by (simp add: x s Let_def st1_def st2_def)
  have "dom (slot_to_day st2) = dom (slot_to_day st) \<union> set (day_names x)"
    by (auto simp: st2_def st1_def emit_slots_to_day day_names_def x dom_def split: if_splits)
  with Cons.IH [OF run] show ?case by auto
qed

lemma days_loop_to_day:
  "days_loop sd stm st = Inr st' \<Longrightarrow>
   slot_to_day st' nm =
     (case filter (\<lambda>dh. nm \<in> set (day_names dh)) (rev sd) of
        [] \<Rightarrow> slot_to_day st nm
      | dh # _ \<Rightarrow> Some (lower (fst dh)))"
proof (induction sd arbitrary: st)
  case Nil
  then show ?case by simp
next
  case (Cons x sd)
  obtain d h where x: "x = (d, h)" by (cases x)
  from Cons.prems(1) obtain s where s: "map_of stm d = Some s"
    by (auto simp: x split: option.splits)
  define st1 where "st1 = emit_slots (abbrev_of d) d [0..<nat h] (st\<lparr>start := s, day_count := 0\<rparr>)"
  define st2 where "st2 = st1\<lparr>day_slot_counts := (day_slot_counts st1)(lower d \<mapsto> day_count st1)\<rparr>"
  from Cons.prems have run: "days_loop sd stm st2 = Inr st'"
    by (simp add: x s Let_def st1_def st2_def)
  have two: "slot_to_day st2 nm = (if nm \<in> set (day_names x) then Some (lower d) else slot_to_day st nm)"
    by (simp add: st2_def st1_def emit_slots_to_day day_names_def x)
  show ?case
    unfolding Cons.IH [OF run] two
    by (auto simp: x split: list.splits)
qed

lemma concat_nth_offset:
  "k < length xss \<Longrightarrow> j < length (xss ! k) \<Longrightarrow>
   concat xss ! (sum_list (map length (take k xss)) + j) = xss ! k ! j"
proof (induction xss arbitrary: k)
  case Nil
  then show ?case by simp
next
  case (Cons xs xss)
  show ?case
  proof (cases k)
    case 0
    with Cons.prems show ?thesis by (simp add: nth_append)
  next
    case (Suc k')
    with Cons.prems Cons.IH [of k'] show ?thesis
      by (simp add: nth_append add.assoc)
  qed
qed

lemma offset_names: "sum_list (map length (take k (map day_names sd))) = day_offset sd k"
  by (simp add: day_offset_def take_map comp_def)

lemma offset_hours: "sum_list (map length (take k (map (day_hours stm) sd))) = day_offset sd k"
  by (simp add: day_offset_def take_map comp_def)

lemma length_concat_day_names: "length (concat (map day_names sd)) = day_offset sd (length sd)"
  by (simp add: day_offset_def length_concat comp_def)

lemma day_offset_bound:
  "k < length sd \<Longrightarrow> j < nat (snd (sd ! k)) \<Longrightarrow> day_offset sd k + j < day_offset sd (length sd)"
proof (induction sd arbitrary: k)
  case Nil
  then show ?case by simp
next
  case (Cons x sd)
  show ?case
  proof (cases k)
    case 0
    with Cons.prems show ?thesis by (simp add: day_offset_def)
  next
    case (Suc k')
    with Cons.prems Cons.IH [of k'] show ?thesis by (simp add: day_offset_def)
  qed
qed

lemma hour_at_not_lunch: "hour_at s j \<noteq> 12"
  unfolding hour_at_def by (cases "s \<le> 12 \<and> 12 \<le> s + int j") auto

lemma keys_update_fold:
  "map fst acc1 = map fst acc2 \<Longrightarrow>
   map fst (fold (\<lambda>d. AList.update (f d) (g d)) ws acc1) = map fst (fold (\<lambda>d. AList.update (f d) (h d)) ws acc2)"
proof (induction ws arbitrary: acc1 acc2)
  case Nil
  then show ?case by simp
next
  case (Cons w ws)
  have "map fst (AList.update (f w) (g w) acc1) = map fst (AList.update (f w) (h w) acc2)"
    using Cons.prems by (simp add: update_keys)
  then show ?case by (simp add: Cons.IH)
qed

lemma same_days: "map fst (start_times_of wds) = map fst (slot_counts_by_day wds)"
  unfolding start_times_of_def slot_counts_by_day_def by (rule keys_update_fold) simp

lemma days_loop_total:
  "\<forall>dh\<in>set sd. map_of stm (fst dh) \<noteq> None \<Longrightarrow> \<exists>st'. days_loop sd stm st = Inr st'"
proof (induction sd arbitrary: st)
  case Nil
  then show ?case by simp
next
  case (Cons x sd)
  obtain d h where x: "x = (d, h)" by (cases x)
  from Cons.prems obtain s where s: "map_of stm d = Some s" by (auto simp: x)
  from Cons.prems have "\<forall>dh\<in>set sd. map_of stm (fst dh) \<noteq> None" by simp
  from Cons.IH [OF this] show ?case by (simp add: x s Let_def)
qed

lemma get_time_slots_total:
  "\<exists>ts. get_time_slots (slot_counts_by_day wds) (start_times_of wds) = Inr ts"
proof -
  have "\<forall>dh\<in>set (slot_counts_by_day wds). map_of (start_times_of wds) (fst dh) \<noteq> None"
  proof
    fix dh assume "dh \<in> set (slot_counts_by_day wds)"
    then have "fst dh \<in> set (map fst (start_times_of wds))" by (simp add: same_days)
    then show "map_of (start_times_of wds) (fst dh) \<noteq> None"
      by (simp add: map_of_eq_None_iff)
  qed
  from days_loop_total [OF this] obtain st' where
    "days_loop (slot_counts_by_day wds) (start_times_of wds)
       \<lparr> slot_names = [], slot_time = Map.empty, slot_to_day = Map.empty,
         day_slot_counts = Map.empty, idx = 0, start = 0, day_count = 0 \<rparr> = Inr st'"
    by blast
  then show ?thesis by (simp add: get_time_slots_def)
qed

lemma get_time_slots_loop:
  assumes "get_time_slots sd stm = Inr ts"
  obtains st' where
    "days_loop sd stm \<lparr> slot_names = [], slot_time = Map.empty, slot_to_day = Map.empty,
               day_slot_counts = Map.empty, idx = 0, start = 0, day_count = 0 \<rparr> = Inr st'"
    "slot_names ts = slot_names st'" "slot_time ts = slot_time st'" "slot_to_day ts = slot_to_day st'"
  using assms by (auto simp: get_time_slots_def time_slots.truncate_def split: sum.splits)

lemma get_time_slots_names:
  "get_time_slots sd stm = Inr ts \<Longrightarrow> slot_names ts = concat (map day_names sd)"
  by (erule get_time_slots_loop) (simp add: days_loop_names)

lemma get_time_slots_time:
  "get_time_slots sd stm = Inr ts \<Longrightarrow>
   slot_time ts i = (if i < length (slot_names ts) then Some (concat (map (day_hours stm) sd) ! i) else None)"
  by (erule get_time_slots_loop) (simp add: days_loop_time days_loop_names)

text \<open>
  Claim C5. For the working days of a call, in the order of the dictionary built from
  them, \<^verbatim>\<open>get_time_slots\<close> returns; no slot has clock hour 12; day \<open>k\<close> receives
  exactly its \<^verbatim>\<open>total_hours\<close> slots (none when that number is negative), named
  \<open>abbrev 1, abbrev 2, \<dots>\<close>, at the consecutive indices after the slots of the days
  before it, so the indices \<open>0, 1, \<dots>\<close> run through the days in order; slot \<open>j\<close> of
  a day that starts at \<open>s\<close> has hour \<open>s + j\<close>, one more from the slot on that would
  have been hour 12.
\<close>

theorem calendar_builder_slots:
  assumes "slot_dict = slot_counts_by_day wds" and "start_times = start_times_of wds"
  shows "\<exists>ts. get_time_slots slot_dict start_times = Inr ts
       \<and> length (slot_names ts) = day_offset slot_dict (length slot_dict)
       \<and> dom (slot_time ts) = {..<length (slot_names ts)}
       \<and> (\<forall>i. slot_time ts i \<noteq> Some 12)
       \<and> (\<forall>k<length slot_dict. \<forall>j<nat (snd (slot_dict ! k)).
            slot_names ts ! (day_offset slot_dict k + j) = abbrev_of (fst (slot_dict ! k)) @ str_nat (j + 1)
          \<and> (\<exists>s. map_of start_times (fst (slot_dict ! k)) = Some s
                \<and> slot_time ts (day_offset slot_dict k + j) = Some (hour_at s j)))"
proof -
  from get_time_slots_total obtain ts where ts: "get_time_slots slot_dict start_times = Inr ts"
    unfolding assms by blast
  note names = get_time_slots_names [OF ts]
  note time = get_time_slots_time [OF ts]
  have len: "length (slot_names ts) = day_offset slot_dict (length slot_dict)"
    by (simp add: names length_concat_day_names)
  have dom: "dom (slot_time ts) = {..<length (slot_names ts)}"
    by (auto simp: time dom_def)
  have blocks: "slot_names ts ! (day_offset slot_dict k + j) = abbrev_of (fst (slot_dict ! k)) @ str_nat (j + 1)
          \<and> (\<exists>s. map_of start_times (fst (slot_dict ! k)) = Some s
                \<and> slot_time ts (day_offset slot_dict k + j) = Some (hour_at s j))"
    if k: "k < length slot_dict" and j: "j < nat (snd (slot_dict ! k))" for k j
  proof -
    have "slot_dict ! k \<in> set slot_dict" using k by simp
    then have "fst (slot_dict ! k) \<in> set (map fst start_times)"
      unfolding assms by (simp add: same_days)
    then have "map_of start_times (fst (slot_dict ! k)) \<noteq> None"
      by (simp add: map_of_eq_None_iff)
    then obtain s where s: "map_of start_times (fst (slot_dict ! k)) = Some s"
      by blast
    have "concat (map day_names slot_dict) ! (day_offset slot_dict k + j) = day_names (slot_dict ! k) ! j"
      using concat_nth_offset [of k "map day_names slot_dict" j] k j
      by (simp add: offset_names)
    then have n: "slot_names ts ! (day_offset slot_dict k + j) = abbrev_of (fst (slot_dict ! k)) @ str_nat (j + 1)"
      using j by (simp add: names day_names_def slot_name_of_def)
    have "concat (map (day_hours start_times) slot_dict) ! (day_offset slot_dict k + j)
            = day_hours start_times (slot_dict ! k) ! j"
      using concat_nth_offset [of k "map (day_hours start_times) slot_dict" j] k j
      by (simp add: offset_hours)
    then have "slot_time ts (day_offset slot_dict k + j) = Some (hour_at s j)"
      using j day_offset_bound [OF k j] by (simp add: time len day_hours_def s hours_seq_nth)
    with n s show ?thesis by simp
  qed
  have lunch: "slot_time ts i \<noteq> Some 12" for i
  proof (cases "i < length (slot_names ts)")
    case False
    then show ?thesis by (simp add: time)
  next
    case True
    have "h \<noteq> 12" if "h \<in> set (concat (map (day_hours start_times) slot_dict))" for h
    proof -
      from that obtain dh where "h \<in> set (day_hours start_times dh)" by auto
      then obtain j where "h = day_hours start_times dh ! j" "j < nat (snd dh)"
        by (auto simp: in_set_conv_nth)
      then show ?thesis by (simp add: day_hours_def hours_seq_nth hour_at_not_lunch)
    qed
    moreover have "concat (map (day_hours start_times) slot_dict) ! i \<in> set (concat (map (day_hours start_times) slot_dict))"
      using True by (intro nth_mem) (simp add: names length_concat_names_hours)
    ultimately show ?thesis using True by (auto simp: time)
  qed
  from ts len dom blocks lunch show ?thesis by blast
qed

theorem calendar_builder_slots_witness:
  "\<exists>ts. get_time_slots [(''Monday'', 5), (''Tuesday'', 2)] [(''Monday'', 9), (''Tuesday'', 12)] = Inr ts
      \<and> length (slot_names ts) = 7
      \<and> slot_names ts ! 3 = ''M4'' \<and> slot_time ts 3 = Some 13
      \<and> slot_names ts ! 5 = ''T1'' \<and> slot_time ts 5 = Some 13
      \<and> slot_time ts 7 = None"
proof -
  let ?sd = "[(''Monday'', 5), (''Tuesday'', 2)] :: (string \<times> int) list"
  let ?stm = "[(''Monday'', 9), (''Tuesday'', 12)] :: (string \<times> int) list"
  define wds where "wds = [\<lparr> wd_day = ''Monday'', wd_start_hr = 9, wd_total_hours = 5 \<rparr>,
                           \<lparr> wd_day = ''Tuesday'', wd_start_hr = 12, wd_total_hours = 2 \<rparr>]"
  have sd: "?sd = slot_counts_by_day wds"
    by (simp add: wds_def slot_counts_by_day_def)
  have stm: "?stm = start_times_of wds"
    by (simp add: wds_def start_times_of_def)
  from calendar_builder_slots [OF sd stm] obtain ts where
    ts: "get_time_slots ?sd ?stm = Inr ts"
    and len: "length (slot_names ts) = day_offset ?sd (length ?sd)"
    and dm: "dom (slot_time ts) = {..<length (slot_names ts)}"
    and blocks: "\<forall>k<length ?sd. \<forall>j<nat (snd (?sd ! k)).
            slot_names ts ! (day_offset ?sd k + j) = abbrev_of (fst (?sd ! k)) @ str_nat (j + 1)
          \<and> (\<exists>s. map_of ?stm (fst (?sd ! k)) = Some s
                \<and> slot_time ts (day_offset ?sd k + j) = Some (hour_at s j))"
    by blast
  have l7: "length (slot_names ts) = 7"
    by (simp add: len day_offset_def)
  have "7 \<notin> dom (slot_time ts)" by (simp add: dm l7)
  then have none: "slot_time ts 7 = None" by blast
  have s4: "str_nat 4 = ''4''" and s1: "str_nat (Suc 0) = ''1''"
    by (simp_all add: str_nat.simps digit_char_def)
  have b0: "slot_names ts ! 3 = ''M4'' \<and> slot_time ts 3 = Some 13"
    using blocks [rule_format, of 0 3]
    by (simp add: day_offset_def abbrev_of_def day_abbreviations_def hour_at_def s4)
  have b1: "slot_names ts ! 5 = ''T1'' \<and> slot_time ts 5 = Some 13"
    using blocks [rule_format, of 1 0]
    by (simp add: day_offset_def abbrev_of_def day_abbreviations_def hour_at_def s1)
  from ts l7 none b0 b1 show ?thesis by blast
qed

section \<open>Domain Calculator: properties\<close>

lemma get_time_slots_wf: "get_time_slots sd stm = Inr ts \<Longrightarrow> wf_slots ts"
proof (erule get_time_slots_loop)
  fix st'
  assume run: "days_loop sd stm \<lparr> slot_names = [], slot_time = Map.empty, slot_to_day = Map.empty,
               day_slot_counts = Map.empty, idx = 0, start = 0, day_count = 0 \<rparr> = Inr st'"
    and eqs: "slot_names ts = slot_names st'" "slot_time ts = slot_time st'" "slot_to_day ts = slot_to_day st'"
  have "dom (slot_to_day st') = set (slot_names st')"
    using days_loop_to_day_dom [OF run] days_loop_names [OF run] by simp
  then have "\<forall>nm\<in>set (slot_names ts). slot_to_day ts nm \<noteq> None"
    by (auto simp: eqs)
  moreover have "\<forall>i<length (slot_names ts). slot_time ts i \<noteq> None"
    using days_loop_time [OF run] days_loop_names [OF run] by (simp add: eqs)
  ultimately show "wf_slots ts" by (simp add: wf_slots_def)
qed

lemma window_ok_eq:
  "\<forall>t\<in>set rest. slot_time ts t \<noteq> None \<Longrightarrow>
   window_ok ts c rest = Inr (\<forall>t\<in>set rest. in_window ts c t)"
  by (induction rest) (auto simp: py_lookup_def in_window_def split: option.splits)

lemma day_at_nat:
  "wf_slots ts \<Longrightarrow> i < length (slot_names ts) \<Longrightarrow> \<exists>l. day_label ts i = Some l \<and> day_at ts (int i) = Inr l"
  by (auto simp: wf_slots_def day_at_def py_index_def py_lookup_def day_label_def split: option.splits)

lemma slot_allowed_eq:
  assumes wf: "wf_slots ts" and d: "1 \<le> p_duration c" and s: "s < length (slot_names ts)"
  shows "slot_allowed ts c s = Inr (legal_start ts c s)"
proof (cases "int s + p_duration c - 1 \<ge> int (length (slot_names ts))")
  case True
  then show ?thesis by (simp add: slot_allowed_def legal_start_def Let_def)
next
  case False
  define e where "e = nat (int s + p_duration c - 1)"
  have eq: "int s + p_duration c - 1 = int e"
    using False d by (simp add: e_def)
  have e: "e < length (slot_names ts)" "s \<le> e"
    using False d by (auto simp: e_def)
  from day_at_nat [OF wf s] obtain l1 where l1: "day_label ts s = Some l1" "day_at ts (int s) = Inr l1"
    by blast
  from day_at_nat [OF wf e(1)] obtain l2 where l2: "day_label ts e = Some l2" "day_at ts (int e) = Inr l2"
    by blast
  have "\<forall>t\<in>set [s..<Suc e]. slot_time ts t \<noteq> None"
    using wf e(1) by (auto simp: wf_slots_def)
  from window_ok_eq [OF this, of c]
  have "window_ok ts c [s..<Suc e] = Inr (\<forall>t\<in>set [s..<Suc e]. in_window ts c t)" .
  moreover have "set [s..<Suc e] = {s..e}"
    by (simp only: set_upt atLeastLessThanSuc_atLeastAtMost)
  ultimately have w: "window_ok ts c [s..<Suc e] = Inr (\<forall>t\<in>{s..e}. in_window ts c t)"
    by (simp only:)
  have n1: "nat (int e + 1) = Suc e" by simp
  have lhs: "slot_allowed ts c s = Inr (l1 = l2 \<and> (\<forall>t\<in>{s..e}. in_window ts c t))"
    unfolding slot_allowed_def Let_def eq n1 using e(1) by (simp add: l1 l2 w del: upt_Suc)
  have rhs: "legal_start ts c s = (l1 = l2 \<and> (\<forall>t\<in>{s..e}. in_window ts c t))"
    unfolding legal_start_def Let_def eq using e(1) by (simp add: l1 l2)
  show ?thesis by (simp only: lhs rhs)
qed

lemma allowed_loop_filter:
  "\<forall>s\<in>set ss. slot_allowed ts c s = Inr (P s) \<Longrightarrow>
   allowed_loop ts c ss acc = Inr (acc @ filter P ss)"
  by (induction ss arbitrary: acc) auto

lemma allowed_vals_filter:
  assumes wf: "wf_slots ts" and d: "1 \<le> p_duration c"
  shows "allowed_vals ts c = Inr (filter (legal_start ts c) [0..<length (slot_names ts)])"
proof -
  have "\<forall>s\<in>set [0..<length (slot_names ts)]. slot_allowed ts c s = Inr (legal_start ts c s)"
    using slot_allowed_eq [OF wf d] by simp
  from allowed_loop_filter [OF this] show ?thesis by (simp add: allowed_vals_def)
qed

lemma processed_fields:
  "p_lectures (process_course teachers c) = c_lectures c"
  "p_duration (process_course teachers c) = c_duration c"
  "p_year (process_course teachers c) = c_year c"
  "p_section (process_course teachers c) = course_section c"
  by (simp_all add: process_course_def Let_def course_section_def)

lemma legal_start_eq:
  "legal_start ts c s = legal ts (p_duration c) (Some (p_start_hr c, p_end_hr c)) s"
  by (simp add: legal_start_def legal_def in_window_def Let_def)

lemma process_window:
  "(p_start_hr (process_course teachers x), p_end_hr (process_course teachers x))
     = teacher_window teachers (c_teacher x)"
  by (simp add: process_course_def teacher_window_def Let_def split: option.splits)

lemma declared_domain:
  assumes "wf_slots ts" and "1 \<le> c_duration x"
  shows "allowed_vals ts (process_course teachers x)
         = Inr (filter (legal ts (c_duration x) (Some (teacher_window teachers (c_teacher x))))
                  [0..<length (slot_names ts)])"
proof -
  have d: "1 \<le> p_duration (process_course teachers x)"
    using assms(2) by (simp add: processed_fields)
  have "legal_start ts (process_course teachers x)
        = legal ts (c_duration x) (Some (teacher_window teachers (c_teacher x)))"
    by (rule ext) (simp only: legal_start_eq process_window processed_fields)
  with allowed_vals_filter [OF assms(1) d] show ?thesis by simp
qed

lemma free_domain:
  assumes wf: "wf_slots ts" and day: "within_day ts"
  shows "allowed_vals ts (free_course y sec k) = Inr [0..<length (slot_names ts)]"
proof -
  let ?fc = "free_course y sec k"
  have d: "1 \<le> p_duration ?fc" by (simp add: free_course_def)
  have "legal_start ts ?fc s" if s: "s < length (slot_names ts)" for s
  proof -
    from wf s obtain h where h: "slot_time ts s = Some h" by (auto simp: wf_slots_def)
    from day s have "0 \<le> slot_hour ts s \<and> slot_hour ts s < 24"
      by (simp add: within_day_def list_all_iff)
    with h have "in_window ts ?fc s"
      by (simp add: in_window_def slot_hour_def free_course_def)
    with s show ?thesis by (simp add: legal_start_def Let_def free_course_def)
  qed
  then have "filter (legal_start ts ?fc) [0..<length (slot_names ts)] = [0..<length (slot_names ts)]"
    by (simp add: filter_id_conv)
  with allowed_vals_filter [OF wf d] show ?thesis by simp
qed

lemma legal_unrestricted:
  "filter (legal ts 1 None) [0..<length (slot_names ts)] = [0..<length (slot_names ts)]"
  by (simp add: filter_id_conv legal_def)

text \<open>
  Claim C6, as amended. For a declared course of duration \<open>d \<ge> 1\<close> the computed domain is
  the list of the slot indices \<open>s\<close>, in increasing order, for which \<open>s + d - 1\<close> is a slot
  index, the slots \<open>s\<close> and \<open>s + d - 1\<close> carry the same day label, and every slot from \<open>s\<close>
  to \<open>s + d - 1\<close> has a clock hour \<open>h\<close> with \<open>start_hr \<le> h < end_hr\<close> for the hours of the
  course's teacher (9 and 17 where the teacher or the field is missing). For a ``Free''
  course, whose duration is 1, on a calendar whose clock hours are hours of the day
  (0 to 23), the domain is given by the first two conditions alone: the window is
  unrestricted.
\<close>

theorem domain_is_legal_starts:
  assumes "get_time_slots slot_dict start_times = Inr ts"
  shows "(1 \<le> c_duration x \<longrightarrow>
            allowed_vals ts (process_course teachers x)
              = Inr (filter (legal ts (c_duration x) (Some (teacher_window teachers (c_teacher x))))
                       [0..<length (slot_names ts)]))
       \<and> (within_day ts \<longrightarrow>
            allowed_vals ts (free_course y sec k)
              = Inr (filter (legal ts 1 None) [0..<length (slot_names ts)]))"
proof -
  have wf: "wf_slots ts" using assms by (rule get_time_slots_wf)
  show ?thesis
    using declared_domain [OF wf] free_domain [OF wf] by (simp add: legal_unrestricted)
qed

theorem domain_is_legal_starts_witness:
  "case get_time_slots [(''Monday'', 3)] [(''Monday'', 10)] of
     Inl e \<Rightarrow> False
   | Inr ts \<Rightarrow>
       allowed_vals ts (process_course short_day_teacher double_maths) = Inr [0]
     \<and> allowed_vals ts (free_course ''Year1'' ''A'' 1) = Inr [0, 1, 2]"
proof (cases "get_time_slots [(''Monday'', 3)] [(''Monday'', 10)]")
  case (Inl e)
  moreover have "case get_time_slots [(''Monday'', 3)] [(''Monday'', 10)] of Inl e \<Rightarrow> False | Inr ts \<Rightarrow> True"
    by code_simp
  ultimately show ?thesis by simp
next
  case (Inr ts)
  have "case get_time_slots [(''Monday'', 3)] [(''Monday'', 10)] of
          Inl e \<Rightarrow> False
        | Inr ts \<Rightarrow>
            filter (legal ts (c_duration double_maths)
                      (Some (teacher_window short_day_teacher (c_teacher double_maths))))
              [0..<length (slot_names ts)] = [0]
          \<and> within_day ts
          \<and> filter (legal ts 1 None) [0..<length (slot_names ts)] = [0, 1, 2]"
    by code_simp
  then have f: "filter (legal ts (c_duration double_maths)
                      (Some (teacher_window short_day_teacher (c_teacher double_maths))))
              [0..<length (slot_names ts)] = [0]"
    and w: "within_day ts"
    and g: "filter (legal ts 1 None) [0..<length (slot_names ts)] = [0, 1, 2]"
    by (simp_all add: Inr)
  have d: "1 \<le> c_duration double_maths" by (simp add: double_maths_def)
  from domain_is_legal_starts [OF Inr, of double_maths short_day_teacher "''Year1''" "''A''" 1] d w
  show ?thesis by (simp add: Inr f g)
qed

text \<open>
  Claim C6 as stated fails for a duration below 1. One day with one slot and a course of
  duration 0: for \<open>s = 0\<close> the index \<open>s + d - 1\<close> is \<open>-1\<close>, which is no slot index, but the
  code reads \<^verbatim>\<open>slot_names[-1]\<close>, the last slot, finds the same day, has no hour to
  check, and puts 0 in the domain.
\<close>

theorem no_last_slot_counterexample:
  "case get_time_slots [(''Monday'', 1)] [(''Monday'', 9)] of
     Inl e \<Rightarrow> False
   | Inr ts \<Rightarrow>
       allowed_vals ts (process_course Map.empty no_time_maths) = Inr [0]
     \<and> \<not> legal ts (c_duration no_time_maths)
            (Some (teacher_window Map.empty (c_teacher no_time_maths))) 0"
  by code_simp

text \<open>
  On a calendar that runs past midnight the window the code gives a ``Free'' course,
  \<open>0 \<le> h < 24\<close>, is not the unrestricted one: a Monday from 13 for 12 hours has its last
  slot at clock hour 24, and that slot is not in the domain of a ``Free'' course.
\<close>

lemma free_window_ends_at_24:
  "case get_time_slots [(''Monday'', 12)] [(''Monday'', 13)] of
     Inl e \<Rightarrow> False
   | Inr ts \<Rightarrow>
       slot_time ts 11 = Some 24 \<and> legal ts 1 None 11
     \<and> allowed_vals ts (free_course ''Year1'' ''A'' 1) = Inr [0, 1, 2, 3, 4, 5, 6, 7, 8, 9, 10]"
  by code_simp

section \<open>Constraint Model Builder: the occurrences\<close>

lemma add_occurrence_fields:
  "next_occ_id (add_occurrence c vals m) = Suc (next_occ_id m)"
  "occ_metadata (add_occurrence c vals m) = occ_metadata m @ [occ_of c (next_occ_id m)]"
  "start_at (add_occurrence c vals m) = start_at m @ map (Pair (next_occ_id m)) vals"
  "cp_constraints (add_occurrence c vals m) = cp_constraints m @ occ_constraints c vals (next_occ_id m)"
  by (simp_all add: add_occurrence_def Let_def occ_of_def occ_constraints_def)

lemma add_occurrence_fold_next:
  "next_occ_id (fold (\<lambda>k. add_occurrence c vals) [0..<n] m) = next_occ_id m + n"
  by (induction n) (simp_all add: add_occurrence_fields)

lemma add_occurrence_fold_occs:
  "occ_metadata (fold (\<lambda>k. add_occurrence c vals) [0..<n] m)
     = occ_metadata m @ map (occ_of c) [next_occ_id m..<next_occ_id m + n]"
  by (induction n) (simp_all add: add_occurrence_fields add_occurrence_fold_next)

lemma add_occurrence_fold_start_at:
  "start_at (fold (\<lambda>k. add_occurrence c vals) [0..<n] m)
     = start_at m @ concat (map (\<lambda>i. map (Pair i) vals) [next_occ_id m..<next_occ_id m + n])"
  by (induction n) (simp_all add: add_occurrence_fields add_occurrence_fold_next)

lemma add_occurrence_fold_constraints:
  "cp_constraints (fold (\<lambda>k. add_occurrence c vals) [0..<n] m)
     = cp_constraints m @ concat (map (occ_constraints c vals) [next_occ_id m..<next_occ_id m + n])"
  by (induction n) (simp_all add: add_occurrence_fields add_occurrence_fold_next)

lemma create_occurrences_Inr:
  assumes "create_occurrences ts pcs m = Inr m'"
  shows "occ_metadata m' = occ_metadata m @ map (\<lambda>(c, i). occ_of c i) (expand (next_occ_id m) pcs)
       \<and> start_at m' = start_at m
           @ concat (map (\<lambda>(c, i). map (Pair i) (dom_of ts c)) (expand (next_occ_id m) pcs))
       \<and> cp_constraints m' = cp_constraints m
           @ concat (map (\<lambda>(c, i). occ_constraints c (dom_of ts c) i) (expand (next_occ_id m) pcs))
       \<and> next_occ_id m' = next_occ_id m + length (expand (next_occ_id m) pcs)
       \<and> (\<forall>c\<in>set pcs. allowed_vals ts c = Inr (dom_of ts c) \<and> \<not> infeasible ts c)"
  using assms
proof (induction pcs arbitrary: m)
  case Nil
  then show ?case by simp
next
  case (Cons c pcs)
  from Cons.prems obtain vals where vals: "allowed_vals ts c = Inr vals"
    by (cases "allowed_vals ts c") auto
  have d: "dom_of ts c = vals" by (simp add: dom_of_def vals)
  from Cons.prems have ok: "\<not> (vals = [] \<and> p_lectures c > 0)"
    by (auto simp: vals split: if_splits)
  define m1 where "m1 = fold (\<lambda>k. add_occurrence c vals) [0..<nat (p_lectures c)] m"
  from Cons.prems ok have run: "create_occurrences ts pcs m1 = Inr m'"
    by (simp add: vals m1_def)
  have m1: "next_occ_id m1 = next_occ_id m + nat (p_lectures c)"
    "occ_metadata m1 = occ_metadata m @ map (occ_of c) [next_occ_id m..<next_occ_id m + nat (p_lectures c)]"
    "start_at m1 = start_at m @ concat (map (\<lambda>i. map (Pair i) vals) [next_occ_id m..<next_occ_id m + nat (p_lectures c)])"
    "cp_constraints m1 = cp_constraints m @ concat (map (occ_constraints c vals) [next_occ_id m..<next_occ_id m + nat (p_lectures c)])"
    by (simp_all add: m1_def add_occurrence_fold_next add_occurrence_fold_occs
          add_occurrence_fold_start_at add_occurrence_fold_constraints)
  from Cons.IH [OF run] ok show ?case
    by (auto simp: m1 d vals infeasible_def add.assoc comp_def)
qed


section \<open>The engine: failures\<close>



lemma free_courses_shape:
  "c \<in> set (free_courses sections reqs n) \<Longrightarrow> \<exists>y sec k. c = free_course y sec k"
  by (auto simp: free_courses_def free_for_section_def Let_def split: if_splits)





text \<open>
  Claim C3, as amended. Whenever the solver ends with a status other than
  \<^verbatim>\<open>OPTIMAL\<close> or \<^verbatim>\<open>FEASIBLE\<close> the engine returns one and the same descriptor:
  a time-out (\<^verbatim>\<open>UNKNOWN\<close>) and a proof of infeasibility (\<^verbatim>\<open>INFEASIBLE\<close>) are not
  told apart.
\<close>

theorem no_solution_one_descriptor:
  assumes "build_model constraints courses teachers sections allow_free = Inr (ts, m)"
    and "fst (solve max_time_seconds m) \<noteq> OPTIMAL" and "fst (solve max_time_seconds m) \<noteq> FEASIBLE"
  shows "generate_college_timetable_with_sections solve constraints courses teachers sections
           allow_free max_time_seconds
         = Inl (ErrorDescriptor ''No valid timetable found. Try adjusting constraints or reducing conflicts.'')"
  using assms
  by (simp add: generate_college_timetable_with_sections_def split_beta Let_def)

theorem no_solution_one_descriptor_witness:
  "generate_college_timetable_with_sections (\<lambda>t m. (UNKNOWN, all_starts 0)) (one_slot_at 9)
      [maths_for ''A''] Map.empty (only_year1 [''A'']) True 30
   = Inl (ErrorDescriptor ''No valid timetable found. Try adjusting constraints or reducing conflicts.'')"
proof -
  have "case build_model (one_slot_at 9) [maths_for ''A''] Map.empty (only_year1 [''A'']) True of
          Inl e \<Rightarrow> False | Inr tm \<Rightarrow> True"
    by code_simp
  then obtain ts m where
    "build_model (one_slot_at 9) [maths_for ''A''] Map.empty (only_year1 [''A'']) True = Inr (ts, m)"
    by (cases "build_model (one_slot_at 9) [maths_for ''A''] Map.empty (only_year1 [''A'']) True") auto
  then show ?thesis by (rule no_solution_one_descriptor) simp_all
qed

text \<open>
  Claim C3 as stated fails: on the same input the answer to a time-out and the answer to
  a proof of infeasibility are the same descriptor.
\<close>

theorem timeout_not_distinct_counterexample:
  "(case generate_college_timetable_with_sections (\<lambda>t m. (UNKNOWN, all_starts 0)) (one_slot_at 9)
           [maths_for ''A''] Map.empty (only_year1 [''A'']) True 30 of
      Inl (ErrorDescriptor msg) \<Rightarrow> msg = no_valid_timetable | _ \<Rightarrow> False)
   \<and> (case generate_college_timetable_with_sections (\<lambda>t m. (INFEASIBLE, all_starts 0)) (one_slot_at 9)
           [maths_for ''A''] Map.empty (only_year1 [''A'']) True 30 of
      Inl (ErrorDescriptor msg) \<Rightarrow> msg = no_valid_timetable | _ \<Rightarrow> False)"
  by code_simp

section \<open>Result Assembler: properties\<close>

lemma fold_upd_const_lower:
  "fold (\<lambda>k m. m(f k \<mapsto> v)) ks m0 = (\<lambda>k. if k \<in> set (map f ks) then Some v else m0 k)"
  by (induction ks arbitrary: m0) (auto simp: fun_eq_iff)

lemma lower_week_eval:
  "lower_week = [''monday'', ''tuesday'', ''wednesday'', ''thursday'', ''friday'', ''saturday'', ''sunday'']"
  by code_simp

lemma empty_week_eq: "empty_week d = (if d \<in> set lower_week then Some [] else None)"
  unfolding empty_week_def lower_week_def by (simp only: fold_upd_const_lower)

lemma fold_upd_const:
  "fold (\<lambda>k m. m(k \<mapsto> v)) ks m0 = (\<lambda>k. if k \<in> set ks then Some v else m0 k)"
  by (induction ks arbitrary: m0) (auto simp: fun_eq_iff)

lemma init_response_eq:
  "init_response sections y =
     (if y \<in> set years
      then Some (\<lambda>sec. if sec \<in> set (map fst (year_sections sections y)) then Some empty_week else None)
      else None)"
  by (simp add: init_response_def years_def fold_upd_const)

lemma shaped_init: "shaped sections (init_response sections)"
  unfolding shaped_def
  by (intro conjI allI impI) (force simp: init_response_eq empty_week_eq dom_def split: if_splits)+

lemma wf_slotsD:
  "wf_slots ts \<Longrightarrow> i < length (slot_names ts) \<Longrightarrow>
   \<exists>d h. slot_to_day ts (slot_names ts ! i) = Some d \<and> slot_time ts i = Some h"
  unfolding wf_slots_def by (meson nth_mem not_Some_eq)

lemma shaped_known:
  assumes "shaped sections resp" and "in_response sections oc"
  obtains ys ds where "resp (o_year oc) = Some ys" and "ys (o_section oc) = Some ds"
    and "dom ds = set lower_week"
proof -
  from assms have "resp (o_year oc) \<noteq> None"
    unfolding shaped_def in_response_def by blast
  then obtain ys where ys: "resp (o_year oc) = Some ys" by blast
  with assms have "ys (o_section oc) \<noteq> None"
    unfolding shaped_def in_response_def by blast
  then obtain ds where ds: "ys (o_section oc) = Some ds" by blast
  with assms ys have "dom ds = set lower_week"
    unfolding shaped_def by blast
  with ys ds that show thesis by blast
qed

lemma shaped_unknown:
  assumes "shaped sections resp" and "\<not> in_response sections oc"
  shows "resp (o_year oc) = None \<or> (\<exists>ys. resp (o_year oc) = Some ys \<and> ys (o_section oc) = None)"
proof (cases "resp (o_year oc)")
  case None
  then show ?thesis by simp
next
  case (Some ys)
  with assms(1) have "o_year oc \<in> set years" unfolding shaped_def by (metis option.distinct(1))
  with assms(2) have "o_section oc \<notin> set (map fst (year_sections sections (o_year oc)))"
    by (simp add: in_response_def)
  with assms(1) Some have "ys (o_section oc) = None" unfolding shaped_def by blast
  with Some show ?thesis by simp
qed

lemma bucket_init:
  "bucket (init_response sections) y sec d =
     (if y \<in> set years \<and> sec \<in> set (map fst (year_sections sections y)) \<and> d \<in> set lower_week
      then Some [] else None)"
  by (simp add: bucket_def init_response_eq empty_week_eq)

lemma extend_buckets_nothing: "extend_buckets (\<lambda>y sec d. []) resp = resp"
  by (simp add: extend_buckets_def fun_eq_iff option.map_ident map_option.identity cong: option.map_cong)


lemma bucket_extend:
  "bucket (extend_buckets f resp) y sec d = map_option (\<lambda>b. b @ f y sec d) (bucket resp y sec d)"
  by (simp add: bucket_def extend_buckets_def split: option.splits)

lemma bucket_sort:
  "bucket (sort_buckets resp) y sec d = map_option (sort_key e_start_time) (bucket resp y sec d)"
  by (simp add: bucket_def sort_buckets_def split: option.splits)

lemma shaped_extend:
  assumes "shaped sections resp"
  shows "shaped sections (extend_buckets f resp)"
proof -
  have 1: "extend_buckets f resp y \<noteq> None \<longleftrightarrow> y \<in> set years" for y
    using assms by (simp add: shaped_def extend_buckets_def)
  have 2: "ys sec \<noteq> None \<longleftrightarrow> sec \<in> set (map fst (year_sections sections y))"
    if "extend_buckets f resp y = Some ys" for y ys sec
  proof -
    from that obtain ys0 where ys0: "resp y = Some ys0"
      and ys: "ys = (\<lambda>sec. map_option (\<lambda>ds d. map_option (\<lambda>b. b @ f y sec d) (ds d)) (ys0 sec))"
      by (auto simp: extend_buckets_def)
    from assms ys0 have "ys0 sec \<noteq> None \<longleftrightarrow> sec \<in> set (map fst (year_sections sections y))"
      unfolding shaped_def by blast
    then show ?thesis by (simp add: ys)
  qed
  have 3: "dom ds = set lower_week"
    if "extend_buckets f resp y = Some ys" and "ys sec = Some ds" for y ys sec ds
  proof -
    from that(1) obtain ys0 where ys0: "resp y = Some ys0"
      and ys: "ys = (\<lambda>sec. map_option (\<lambda>ds d. map_option (\<lambda>b. b @ f y sec d) (ds d)) (ys0 sec))"
      by (auto simp: extend_buckets_def)
    from that(2) obtain ds0 where ds0: "ys0 sec = Some ds0"
      and ds: "ds = (\<lambda>d. map_option (\<lambda>b. b @ f y sec d) (ds0 d))"
      by (auto simp: ys)
    from assms ys0 ds0 have "dom ds0 = set lower_week" unfolding shaped_def by blast
    then show ?thesis by (auto simp: ds dom_def)
  qed
  from 1 2 3 show ?thesis unfolding shaped_def by blast
qed

lemma extend_buckets_twice:
  "extend_buckets g (extend_buckets f resp) = extend_buckets (\<lambda>y sec d. f y sec d @ g y sec d) resp"
  by (simp add: extend_buckets_def fun_eq_iff option.map_comp comp_def)

lemma add_entry_unknown:
  assumes "wf_slots ts" and "start_val a (occ_id oc) < length (slot_names ts)"
    and "shaped sections resp" and "\<not> in_response sections oc"
  shows "add_entry ts sections a oc resp = Inr resp"
proof -
  let ?s = "start_val a (occ_id oc)"
  from wf_slotsD [OF assms(1,2)] obtain d h where d: "slot_to_day ts (slot_names ts ! ?s) = Some d"
      and h: "slot_time ts ?s = Some h"
    by blast
  have "resp (o_year oc) = None \<or> (\<exists>ys. resp (o_year oc) = Some ys \<and> ys (o_section oc) = None)"
    using assms(3,4) by (rule shaped_unknown)
  then show ?thesis
    using assms(2) d h
    by (auto simp: add_entry_def Let_def py_index_def py_lookup_def)
qed

lemma add_entry_known:
  assumes "wf_slots ts" and "start_val a (occ_id oc) < length (slot_names ts)"
    and "shaped sections resp" and "in_response sections oc"
    and "day_of ts a oc \<in> set lower_week"
  shows "add_entry ts sections a oc resp =
           Inr (extend_buckets (entries_for ts sections a [oc]) resp)"
proof -
  let ?s = "start_val a (occ_id oc)"
  from wf_slotsD [OF assms(1,2)] obtain d h where d: "slot_to_day ts (slot_names ts ! ?s) = Some d"
      and h: "slot_time ts ?s = Some h"
    by blast
  have dd: "day_of ts a oc = d" by (simp add: day_of_def d)
  have hh: "start_hour ts a oc = h" by (simp add: start_hour_def h)
  from assms(3,4) obtain ys ds where ys: "resp (o_year oc) = Some ys"
      and ds: "ys (o_section oc) = Some ds" and dom: "dom ds = set lower_week"
    by (rule shaped_known)
  from dom assms(5) dd obtain b where b: "ds d = Some b" by (auto simp: dom_def)
  have lhs: "add_entry ts sections a oc resp =
      Inr (resp(o_year oc \<mapsto> ys(o_section oc \<mapsto> ds(d \<mapsto> b @ [entry_of ts sections a oc]))))"
    using assms(2) d h ys ds b
    by (simp add: add_entry_def Let_def py_index_def py_lookup_def entry_of_def hh)
  have "resp(o_year oc \<mapsto> ys(o_section oc \<mapsto> ds(d \<mapsto> b @ [entry_of ts sections a oc])))
        = extend_buckets (entries_for ts sections a [oc]) resp"
  proof
    fix y
    show "(resp(o_year oc \<mapsto> ys(o_section oc \<mapsto> ds(d \<mapsto> b @ [entry_of ts sections a oc])))) y
          = extend_buckets (entries_for ts sections a [oc]) resp y"
    proof (cases "y = o_year oc")
      case False
      then show ?thesis
        by (simp add: extend_buckets_def entries_for_def option.map_ident
              cong: option.map_cong)
    next
      case True
      have "ys(o_section oc \<mapsto> ds(d \<mapsto> b @ [entry_of ts sections a oc]))
           = (\<lambda>sec. map_option (\<lambda>ds d. map_option (\<lambda>b. b @ entries_for ts sections a [oc] y sec d) (ds d)) (ys sec))"
      proof
        fix sec
        show "(ys(o_section oc \<mapsto> ds(d \<mapsto> b @ [entry_of ts sections a oc]))) sec
            = map_option (\<lambda>ds d. map_option (\<lambda>b. b @ entries_for ts sections a [oc] y sec d) (ds d)) (ys sec)"
        proof (cases "sec = o_section oc")
          case False
          then show ?thesis
            by (simp add: entries_for_def option.map_ident cong: option.map_cong)
        next
          case sec: True
          have "ds(d \<mapsto> b @ [entry_of ts sections a oc])
                = (\<lambda>d'. map_option (\<lambda>b. b @ entries_for ts sections a [oc] y sec d') (ds d'))"
            using b by (auto simp: fun_eq_iff entries_for_def True sec dd option.map_ident)
          then show ?thesis by (simp add: sec ds)
        qed
      qed
      then show ?thesis by (simp add: True ys extend_buckets_def)
    qed
  qed
  with lhs show ?thesis by simp
qed


lemma add_entry_missing_day:
  assumes "wf_slots ts" and "start_val a (occ_id oc) < length (slot_names ts)"
    and "shaped sections resp" and "in_response sections oc"
    and "day_of ts a oc \<notin> set lower_week"
  shows "add_entry ts sections a oc resp = Inl KeyError"
proof -
  let ?s = "start_val a (occ_id oc)"
  from wf_slotsD [OF assms(1,2)] obtain d h where d: "slot_to_day ts (slot_names ts ! ?s) = Some d"
      and h: "slot_time ts ?s = Some h"
    by blast
  have dd: "day_of ts a oc = d" by (simp add: day_of_def d)
  from assms(3,4) obtain ys ds where ys: "resp (o_year oc) = Some ys"
      and ds: "ys (o_section oc) = Some ds" and dom: "dom ds = set lower_week"
    by (rule shaped_known)
  from dom assms(5) dd have "ds d = None" by (auto simp: dom_def)
  then show ?thesis
    using assms(2) d h ys ds
    by (simp add: add_entry_def Let_def py_index_def py_lookup_def)
qed

lemma extend_buckets_cong:
  assumes "\<And>y sec d. bucket resp y sec d \<noteq> None \<Longrightarrow> f y sec d = g y sec d"
  shows "extend_buckets f resp = extend_buckets g resp"
proof
  fix y
  show "extend_buckets f resp y = extend_buckets g resp y"
  proof (cases "resp y")
    case None
    then show ?thesis by (simp add: extend_buckets_def)
  next
    case (Some ys)
    have "map_option (\<lambda>ds d. map_option (\<lambda>b. b @ f y sec d) (ds d)) (ys sec)
        = map_option (\<lambda>ds d. map_option (\<lambda>b. b @ g y sec d) (ds d)) (ys sec)" for sec
    proof (cases "ys sec")
      case None
      then show ?thesis by simp
    next
      case ds: (Some ds)
      have "map_option (\<lambda>b. b @ f y sec d) (ds d) = map_option (\<lambda>b. b @ g y sec d) (ds d)" for d
      proof (cases "ds d")
        case None
        then show ?thesis by simp
      next
        case b: (Some b)
        then have "bucket resp y sec d \<noteq> None" by (simp add: bucket_def Some ds)
        from assms [OF this] show ?thesis by simp
      qed
      then show ?thesis by (simp add: ds)
    qed
    then show ?thesis by (simp add: extend_buckets_def Some)
  qed
qed

lemma shaped_bucket:
  assumes "shaped sections resp" and "bucket resp y sec d \<noteq> None"
  shows "y \<in> set years \<and> sec \<in> set (map fst (year_sections sections y))"
proof -
  from assms(2) obtain ys ds where ys: "resp y = Some ys" and ds: "ys sec = Some ds"
    by (auto simp: bucket_def split: option.splits)
  from assms(1) ys have "y \<in> set years" unfolding shaped_def by (metis option.distinct(1))
  moreover from assms(1) ys ds have "sec \<in> set (map fst (year_sections sections y))"
    unfolding shaped_def by (metis option.distinct(1))
  ultimately show ?thesis by simp
qed

lemma add_entry_unknown_extend:
  assumes "shaped sections resp" and "\<not> in_response sections oc"
  shows "extend_buckets (entries_for ts sections a [oc]) resp = resp"
proof -
  have "extend_buckets (entries_for ts sections a [oc]) resp = extend_buckets (\<lambda>y sec d. []) resp"
  proof (rule extend_buckets_cong)
    fix y sec d
    assume "bucket resp y sec d \<noteq> None"
    from shaped_bucket [OF assms(1) this] assms(2)
    show "entries_for ts sections a [oc] y sec d = []"
      by (auto simp: entries_for_def in_response_def)
  qed
  then show ?thesis by (simp add: extend_buckets_nothing)
qed

lemma entries_for_Cons:
  "entries_for ts sections a (oc # occs) y sec d
     = entries_for ts sections a [oc] y sec d @ entries_for ts sections a occs y sec d"
  by (simp add: entries_for_def)

lemma add_entries_char:
  assumes "wf_slots ts" and "\<forall>oc\<in>set occs. start_val a (occ_id oc) < length (slot_names ts)"
    and "shaped sections resp"
    and "\<forall>oc\<in>set occs. in_response sections oc \<longrightarrow> day_of ts a oc \<in> set lower_week"
  shows "add_entries ts sections a occs resp = Inr (extend_buckets (entries_for ts sections a occs) resp)"
  using assms(2,3,4)
proof (induction occs arbitrary: resp)
  case Nil
  then show ?case by (simp add: entries_for_def extend_buckets_nothing)
next
  case (Cons oc occs)
  from Cons.prems(1) have s: "start_val a (occ_id oc) < length (slot_names ts)" by simp
  have step: "add_entry ts sections a oc resp = Inr (extend_buckets (entries_for ts sections a [oc]) resp)"
  proof (cases "in_response sections oc")
    case True
    with Cons.prems(3) have "day_of ts a oc \<in> set lower_week" by simp
    from add_entry_known [OF assms(1) s Cons.prems(2) True this] show ?thesis .
  next
    case False
    from add_entry_unknown [OF assms(1) s Cons.prems(2) False]
      add_entry_unknown_extend [OF Cons.prems(2) False]
    show ?thesis by simp
  qed
  have sh: "shaped sections (extend_buckets (entries_for ts sections a [oc]) resp)"
    using Cons.prems(2) by (rule shaped_extend)
  from Cons.prems have "\<forall>oc\<in>set occs. start_val a (occ_id oc) < length (slot_names ts)"
    and "\<forall>oc\<in>set occs. in_response sections oc \<longrightarrow> day_of ts a oc \<in> set lower_week" by simp_all
  from Cons.IH [OF this(1) sh this(2)] step show ?case
    by (simp add: extend_buckets_twice entries_for_Cons [symmetric])
qed

lemma add_entries_filter:
  assumes "wf_slots ts" and "\<forall>oc\<in>set occs. start_val a (occ_id oc) < length (slot_names ts)"
    and "shaped sections resp"
  shows "add_entries ts sections a occs resp
         = add_entries ts sections a (filter (in_response sections) occs) resp"
  using assms(2,3)
proof (induction occs arbitrary: resp)
  case Nil
  then show ?case by simp
next
  case (Cons oc occs)
  from Cons.prems(1) have s: "start_val a (occ_id oc) < length (slot_names ts)"
    and rest: "\<forall>oc\<in>set occs. start_val a (occ_id oc) < length (slot_names ts)" by simp_all
  show ?case
  proof (cases "in_response sections oc")
    case False
    from add_entry_unknown [OF assms(1) s Cons.prems(2) False] Cons.IH [OF rest Cons.prems(2)] False
    show ?thesis by simp
  next
    case True
    show ?thesis
    proof (cases "day_of ts a oc \<in> set lower_week")
      case d: True
      note step = add_entry_known [OF assms(1) s Cons.prems(2) True d]
      have sh: "shaped sections (extend_buckets (entries_for ts sections a [oc]) resp)"
        using Cons.prems(2) by (rule shaped_extend)
      from Cons.IH [OF rest sh] step True show ?thesis by simp
    next
      case d: False
      from add_entry_missing_day [OF assms(1) s Cons.prems(2) True d] True
      show ?thesis by simp
    qed
  qed
qed

lemma build_response_bucket:
  assumes "wf_slots ts" and "\<forall>oc\<in>set occs. start_val a (occ_id oc) < length (slot_names ts)"
    and "\<forall>oc\<in>set occs. in_response sections oc \<longrightarrow> day_of ts a oc \<in> set lower_week"
  shows "\<exists>resp. build_response ts sections a occs = Inr resp
      \<and> (\<forall>y sec d. bucket resp y sec d =
           (if y \<in> set years \<and> sec \<in> set (map fst (year_sections sections y)) \<and> d \<in> set lower_week
            then Some (sort_key e_start_time (entries_for ts sections a occs y sec d))
            else None))"
proof -
  from add_entries_char [OF assms(1,2) shaped_init assms(3)]
  have "build_response ts sections a occs
        = Inr (sort_buckets (extend_buckets (entries_for ts sections a occs) (init_response sections)))"
    by (simp add: build_response_def)
  then show ?thesis
    by (simp add: bucket_sort bucket_extend bucket_init)
qed

section \<open>Constraint Model Builder: the exclusion constraints\<close>

lemma index_pairs_Cons: "index_pairs (x # xs) = map (Pair x) xs @ index_pairs xs"
proof -
  have upt: "[0..<Suc (length xs)] = 0 # map Suc [0..<length xs]"
    by (simp add: upt_conv_Cons map_Suc_upt del: upt_Suc)
  have shift: "map f [Suc i..<Suc (length xs)] = map (\<lambda>j. f (Suc j)) [i..<length xs]" for i and f :: "nat \<Rightarrow> 'a \<times> 'a"
  proof -
    have "[Suc i..<Suc (length xs)] = map Suc [i..<length xs]"
      by (simp add: map_Suc_upt del: upt_Suc)
    then show ?thesis by (simp add: comp_def del: upt_Suc)
  qed
  have first: "map (\<lambda>j. (x, (x # xs) ! j)) [Suc 0..<Suc (length xs)] = map (Pair x) xs"
  proof -
    have "map (\<lambda>j. (x, (x # xs) ! j)) [Suc 0..<Suc (length xs)] = map (\<lambda>j. (x, xs ! j)) [0..<length xs]"
      by (simp add: shift del: upt_Suc)
    also have "\<dots> = map (Pair x) (map (\<lambda>j. xs ! j) [0..<length xs])"
      by (simp add: comp_def)
    finally show ?thesis by (simp add: map_nth)
  qed
  have rest: "map (\<lambda>j. (xs ! i, (x # xs) ! j)) [Suc (Suc i)..<Suc (length xs)]
              = map (\<lambda>j. (xs ! i, xs ! j)) [Suc i..<length xs]" for i
    by (simp add: shift del: upt_Suc)
  show ?thesis
    unfolding index_pairs_def length_Cons upt
    by (simp add: first rest comp_def del: upt_Suc)
qed

lemma index_pairs_ordered: "index_pairs xs = ordered_pairs xs"
  by (induction xs) (simp_all add: index_pairs_Cons, simp add: index_pairs_def)

lemma ordered_pairs_filter:
  "(x, y) \<in> set (ordered_pairs xs) \<Longrightarrow> P x \<Longrightarrow> P y \<Longrightarrow> (x, y) \<in> set (ordered_pairs (filter P xs))"
  by (induction xs) auto

lemma ordered_pairs_total:
  "distinct xs \<Longrightarrow> x \<in> set xs \<Longrightarrow> y \<in> set xs \<Longrightarrow> x \<noteq> y \<Longrightarrow>
   (x, y) \<in> set (ordered_pairs xs) \<or> (y, x) \<in> set (ordered_pairs xs)"
  by (induction xs) auto

lemma ordered_pairs_members:
  "(x, y) \<in> set (ordered_pairs xs) \<Longrightarrow> x \<in> set xs \<and> y \<in> set xs"
  by (induction xs) auto

lemma ordered_pairs_distinct:
  "distinct xs \<Longrightarrow> (x, y) \<in> set (ordered_pairs xs) \<Longrightarrow> x \<noteq> y"
  by (induction xs) (auto dest: ordered_pairs_members)

lemma group_by_map_of:
  "map_of (group_by key xs groups) k =
     (if k \<in> key ` set xs \<or> map_of groups k \<noteq> None
      then Some ((case map_of groups k of None \<Rightarrow> [] | Some g \<Rightarrow> g) @ filter (\<lambda>x. key x = k) xs)
      else None)"
proof (induction xs arbitrary: groups)
  case Nil
  then show ?case by (auto split: option.splits)
next
  case (Cons x xs)
  show ?case
    by (simp add: Cons.IH Let_def update_conv' split: option.splits)
qed

lemma group_by_member:
  assumes "x \<in> set xs"
  shows "(key x, filter (\<lambda>y. key y = key x) xs) \<in> set (group_by key xs [])"
proof -
  have "map_of (group_by key xs []) (key x) = Some (filter (\<lambda>y. key y = key x) xs)"
    using assms by (simp add: group_by_map_of)
  then show ?thesis by (rule map_of_SomeD)
qed

lemma pair_conflicts_member:
  assumes "s1 < n" and "s2 < n"
    and "(occ_id o1, s1) \<in> set keys" and "(occ_id o2, s2) \<in> set keys"
    and "overlap (int s1) (o_duration o1) (int s2) (o_duration o2)"
  shows "AtMostOne (occ_id o1, s1) (occ_id o2, s2) \<in> set (pair_conflicts keys n (o1, o2))"
  using assms unfolding pair_conflicts_def overlap_def Let_def
  by (auto intro!: bexI [of _ s1] bexI [of _ s2])


lemma overlap_sym: "overlap s1 d1 s2 d2 = overlap s2 d2 s1 d1"
  by (auto simp: overlap_def)

lemma group_conflicts_present:
  assumes "distinct occs" and "o1 \<in> set occs" and "o2 \<in> set occs" and "o1 \<noteq> o2"
    and "key o1 = key o2" and "s1 < n" and "s2 < n"
    and "(occ_id o1, s1) \<in> set keys" and "(occ_id o2, s2) \<in> set keys"
    and "overlap (int s1) (o_duration o1) (int s2) (o_duration o2)"
  shows "AtMostOne (occ_id o1, s1) (occ_id o2, s2)
           \<in> set (concat (map (group_conflicts keys n) (group_by key occs [])))
       \<or> AtMostOne (occ_id o2, s2) (occ_id o1, s1)
           \<in> set (concat (map (group_conflicts keys n) (group_by key occs [])))"
proof -
  define g where "g = filter (\<lambda>y. key y = key o1) occs"
  have grp: "(key o1, g) \<in> set (group_by key occs [])"
    unfolding g_def using assms(2) by (rule group_by_member)
  have mem: "o1 \<in> set g" "o2 \<in> set g" using assms(2,3,5) by (simp_all add: g_def)
  have dg: "distinct g" using assms(1) by (simp add: g_def)
  have "card (set g) \<ge> 2"
  proof -
    have "{o1, o2} \<subseteq> set g" using mem by simp
    then have "card {o1, o2} \<le> card (set g)" by (intro card_mono) simp_all
    with assms(4) show ?thesis by simp
  qed
  then have len: "\<not> length g \<le> 1" using dg by (simp add: distinct_card)
  have gc: "group_conflicts keys n (key o1, g) = concat (map (pair_conflicts keys n) (ordered_pairs g))"
    using len by (simp add: group_conflicts_def Let_def index_pairs_ordered)
  from ordered_pairs_total [OF dg mem assms(4)]
  show ?thesis
  proof
    assume p: "(o1, o2) \<in> set (ordered_pairs g)"
    from pair_conflicts_member [OF assms(6,7,8,9,10)]
    have "AtMostOne (occ_id o1, s1) (occ_id o2, s2) \<in> set (group_conflicts keys n (key o1, g))"
      using p unfolding gc by auto
    with grp show ?thesis by auto
  next
    assume p: "(o2, o1) \<in> set (ordered_pairs g)"
    from assms(10) have "overlap (int s2) (o_duration o2) (int s1) (o_duration o1)"
      by (simp add: overlap_sym)
    from pair_conflicts_member [OF assms(7,6,9,8) this]
    have "AtMostOne (occ_id o2, s2) (occ_id o1, s1) \<in> set (group_conflicts keys n (key o1, g))"
      using p unfolding gc by auto
    with grp show ?thesis by auto
  qed
qed

lemma expand_ids:
  "map snd (expand i pcs) = [i..<i + sum_list (map (\<lambda>c. nat (p_lectures c)) pcs)]"
proof (induction pcs arbitrary: i)
  case Nil
  then show ?case by simp
next
  case (Cons c pcs)
  define k where "k = nat (p_lectures c)"
  define r where "r = sum_list (map (\<lambda>c. nat (p_lectures c)) pcs)"
  have "map snd (expand i (c # pcs)) = map snd (map (Pair c) [i..<i + k]) @ map snd (expand (i + k) pcs)"
    by (simp add: k_def)
  also have "map snd (map (Pair c) [i..<i + k]) = [i..<i + k]"
    by (simp add: comp_def del: upt_Suc)
  also have "map snd (expand (i + k) pcs) = [i + k..<i + k + r]"
    unfolding r_def by (rule Cons.IH)
  also have "[i..<i + k] @ [i + k..<i + k + r] = [i..<i + k + r]"
    by (rule upt_add_eq_append [symmetric]) simp
  finally show ?case by (simp add: k_def r_def add.assoc)
qed

lemma expand_courses: "(c, i) \<in> set (expand j pcs) \<Longrightarrow> c \<in> set pcs"
  by (induction pcs arbitrary: j) auto

lemma expand_distinct: "distinct (map snd (expand i pcs))"
  by (simp add: expand_ids)

lemma occ_id_expand: "map occ_id (map (\<lambda>(c, i). occ_of c i) (expand j pcs)) = map snd (expand j pcs)"
  by (simp add: occ_of_def split_beta comp_def)

lemma build_model_Inr:
  assumes "build_model constraints courses teachers sections allow_free = Inr (ts, m)"
  obtains wds m0 where "working_days constraints = Some wds" and "wds \<noteq> []" and "courses \<noteq> []"
    and "get_time_slots (slot_counts_by_day wds) (start_times_of wds) = Inr ts"
    and "create_occurrences ts (all_courses teachers sections allow_free (length (slot_names ts)) courses)
           empty_model = Inr m0"
    and "m = add_conflict_constraints ts m0"
proof -
  from assms have c: "courses \<noteq> []"
    by (auto simp: build_model_def split: if_splits)
  from assms obtain wds where w: "working_days constraints = Some wds" "wds \<noteq> []"
    by (cases "working_days constraints") (auto simp: build_model_def Let_def split: if_splits)
  from assms c w obtain ts' where t: "get_time_slots (slot_counts_by_day wds) (start_times_of wds) = Inr ts'"
    by (cases "get_time_slots (slot_counts_by_day wds) (start_times_of wds)")
       (auto simp: build_model_def Let_def)
  from assms c w t obtain m0 where
    m0: "create_occurrences ts' (all_courses teachers sections allow_free (length (slot_names ts')) courses)
           empty_model = Inr m0"
    by (cases "create_occurrences ts' (all_courses teachers sections allow_free (length (slot_names ts')) courses) empty_model")
       (auto simp: build_model_def Let_def)
  from assms c w t m0 have "ts' = ts" "m = add_conflict_constraints ts m0"
    by (auto simp: build_model_def Let_def)
  with that c w t m0 show thesis by blast
qed

lemma build_model_parts:
  assumes "build_model constraints courses teachers sections allow_free = Inr (ts, m)"
  defines "pcs \<equiv> all_courses teachers sections allow_free (length (slot_names ts)) courses"
  shows "occ_metadata m = map (\<lambda>(c, i). occ_of c i) (expand 0 pcs)"
    and "start_at m = concat (map (\<lambda>(c, i). map (Pair i) (dom_of ts c)) (expand 0 pcs))"
    and "cp_constraints m =
           concat (map (\<lambda>(c, i). occ_constraints c (dom_of ts c) i) (expand 0 pcs))
           @ section_no_overlap (occ_metadata m)
           @ apply_teacher_conflict_constraint (occ_metadata m) (start_at m) (slot_names ts)
           @ apply_section_constraint (occ_metadata m) (start_at m) (slot_names ts)"
    and "\<forall>c\<in>set pcs. allowed_vals ts c = Inr (dom_of ts c) \<and> \<not> infeasible ts c"
    and "wf_slots ts"
proof -
  from assms(1) obtain wds m0 where
    t: "get_time_slots (slot_counts_by_day wds) (start_times_of wds) = Inr ts"
    and m0: "create_occurrences ts pcs empty_model = Inr m0"
    and m: "m = add_conflict_constraints ts m0"
    unfolding pcs_def by (rule build_model_Inr)
  note c = create_occurrences_Inr [OF m0, simplified empty_model_def, simplified]
  show "occ_metadata m = map (\<lambda>(c, i). occ_of c i) (expand 0 pcs)"
    using c by (simp add: m add_conflict_constraints_def)
  show "start_at m = concat (map (\<lambda>(c, i). map (Pair i) (dom_of ts c)) (expand 0 pcs))"
    using c by (simp add: m add_conflict_constraints_def)
  show "cp_constraints m =
           concat (map (\<lambda>(c, i). occ_constraints c (dom_of ts c) i) (expand 0 pcs))
           @ section_no_overlap (occ_metadata m)
           @ apply_teacher_conflict_constraint (occ_metadata m) (start_at m) (slot_names ts)
           @ apply_section_constraint (occ_metadata m) (start_at m) (slot_names ts)"
    using c by (simp add: m add_conflict_constraints_def)
  show "\<forall>c\<in>set pcs. allowed_vals ts c = Inr (dom_of ts c) \<and> \<not> infeasible ts c"
    using c by simp
  show "wf_slots ts" using t by (rule get_time_slots_wf)
qed


lemma allowed_loop_subset:
  "allowed_loop ts c ss acc = Inr vals \<Longrightarrow> set vals \<subseteq> set acc \<union> set ss"
proof (induction ss arbitrary: acc)
  case Nil
  then show ?case by simp
next
  case (Cons s ss)
  from Cons.prems obtain ok where "slot_allowed ts c s = Inr ok"
    and "allowed_loop ts c ss (if ok then acc @ [s] else acc) = Inr vals"
    by (cases "slot_allowed ts c s") auto
  from Cons.IH [OF this(2)] show ?case by (auto split: if_splits)
qed

lemma dom_of_bound:
  "allowed_vals ts c = Inr (dom_of ts c) \<Longrightarrow> s \<in> set (dom_of ts c) \<Longrightarrow> s < length (slot_names ts)"
  unfolding allowed_vals_def by (drule allowed_loop_subset) auto

lemma build_model_distinct:
  assumes "build_model constraints courses teachers sections allow_free = Inr (ts, m)"
  shows "distinct (map occ_id (occ_metadata m))" and "distinct (occ_metadata m)"
proof -
  show d: "distinct (map occ_id (occ_metadata m))"
    unfolding build_model_parts(1) [OF assms] occ_id_expand by (rule expand_distinct)
  then show "distinct (occ_metadata m)" by (simp add: distinct_map)
qed

lemma sat_placement:
  assumes bm: "build_model constraints courses teachers sections allow_free = Inr (ts, m)"
    and sat: "cp_sat m a" and oc: "oc \<in> set (occ_metadata m)"
  obtains c where "c \<in> set (all_courses teachers sections allow_free (length (slot_names ts)) courses)"
    and "oc = occ_of c (occ_id oc)"
    and "allowed_vals ts c = Inr (dom_of ts c)"
    and "start_val a (occ_id oc) \<in> set (dom_of ts c)"
    and "start_val a (occ_id oc) < length (slot_names ts)"
    and "lit a (occ_id oc, start_val a (occ_id oc))"
    and "(occ_id oc, start_val a (occ_id oc)) \<in> set (start_at m)"
proof -
  let ?pcs = "all_courses teachers sections allow_free (length (slot_names ts)) courses"
  note parts = build_model_parts [OF bm]
  from oc obtain c i where ci: "(c, i) \<in> set (expand 0 ?pcs)" and o: "oc = occ_of c i"
    unfolding parts(1) by auto
  have i: "occ_id oc = i" by (simp add: o occ_of_def)
  have c: "c \<in> set ?pcs" using ci by (rule expand_courses)
  with parts(4) have av: "allowed_vals ts c = Inr (dom_of ts c)" by blast
  have all: "\<forall>x\<in>set (cp_constraints m). holds a x"
    using sat by (simp add: cp_sat_def list_all_iff)
  have cs: "set (occ_constraints c (dom_of ts c) i) \<subseteq> set (cp_constraints m)"
    unfolding parts(3) using ci by auto
  have "StartDomain i (dom_of ts c) \<in> set (occ_constraints c (dom_of ts c) i)"
    by (simp add: occ_constraints_def)
  with cs all have "holds a (StartDomain i (dom_of ts c))" by blast
  then have d: "start_val a i \<in> set (dom_of ts c)" by simp
  then have "StartIsNot (i, start_val a i) \<in> set (occ_constraints c (dom_of ts c) i)"
    by (auto simp: occ_constraints_def)
  with cs all have "holds a (StartIsNot (i, start_val a i))" by blast
  then have l: "lit a (i, start_val a i)" by auto
  have k: "(i, start_val a i) \<in> set (start_at m)"
    unfolding parts(2) using ci d by auto
  from dom_of_bound [OF av d] have b: "start_val a i < length (slot_names ts)" .
  from that [OF c] o av d b l k i show thesis by simp
qed

lemma sat_exclusive:
  assumes bm: "build_model constraints courses teachers sections allow_free = Inr (ts, m)"
    and sat: "cp_sat m a"
    and o1: "o1 \<in> set (occ_metadata m)" and o2: "o2 \<in> set (occ_metadata m)" and ne: "o1 \<noteq> o2"
    and same: "o_teacher o1 = o_teacher o2
               \<or> section_key (o_year o1) (o_section o1) = section_key (o_year o2) (o_section o2)"
  shows "\<not> overlap (int (start_val a (occ_id o1))) (o_duration o1)
                     (int (start_val a (occ_id o2))) (o_duration o2)"
proof
  let ?s1 = "start_val a (occ_id o1)" and ?s2 = "start_val a (occ_id o2)"
  let ?n = "length (slot_names ts)"
  assume ov: "overlap (int ?s1) (o_duration o1) (int ?s2) (o_duration o2)"
  from sat_placement [OF bm sat o1] have p1: "?s1 < ?n" "lit a (occ_id o1, ?s1)"
    "(occ_id o1, ?s1) \<in> set (start_at m)" by blast+
  from sat_placement [OF bm sat o2] have p2: "?s2 < ?n" "lit a (occ_id o2, ?s2)"
    "(occ_id o2, ?s2) \<in> set (start_at m)" by blast+
  note d = build_model_distinct(2) [OF bm]
  have all: "\<forall>x\<in>set (cp_constraints m). holds a x"
    using sat by (simp add: cp_sat_def list_all_iff)
  have "AtMostOne (occ_id o1, ?s1) (occ_id o2, ?s2) \<in> set (cp_constraints m)
      \<or> AtMostOne (occ_id o2, ?s2) (occ_id o1, ?s1) \<in> set (cp_constraints m)"
    using same
  proof
    assume t: "o_teacher o1 = o_teacher o2"
    from group_conflicts_present [OF d o1 o2 ne t p1(1) p2(1) p1(3) p2(3) ov]
    show ?thesis
      unfolding build_model_parts(3) [OF bm] apply_teacher_conflict_constraint_def
      by (simp only: set_append) blast
  next
    assume k: "section_key (o_year o1) (o_section o1) = section_key (o_year o2) (o_section o2)"
    from group_conflicts_present [of "occ_metadata m" o1 o2 "\<lambda>oc. section_key (o_year oc) (o_section oc)",
        OF d o1 o2 ne k p1(1) p2(1) p1(3) p2(3) ov]
    show ?thesis
      unfolding build_model_parts(3) [OF bm] apply_section_constraint_def
      by (simp only: set_append) blast
  qed
  with all have "holds a (AtMostOne (occ_id o1, ?s1) (occ_id o2, ?s2))
      \<or> holds a (AtMostOne (occ_id o2, ?s2) (occ_id o1, ?s1))" by blast
  with p1(2) p2(2) show False by simp
qed

section \<open>Calendar Builder: the days of the week\<close>

lemma update_fresh: "k \<notin> fst ` set al \<Longrightarrow> AList.update k v al = al @ [(k, v)]"
  by (induction al) auto

lemma fold_update_distinct:
  "distinct (map f ws) \<Longrightarrow> f ` set ws \<inter> fst ` set acc = {} \<Longrightarrow>
   fold (\<lambda>d. AList.update (f d) (g d)) ws acc = acc @ map (\<lambda>d. (f d, g d)) ws"
proof (induction ws arbitrary: acc)
  case Nil
  then show ?case by simp
next
  case (Cons w ws)
  from Cons.prems have fresh: "f w \<notin> fst ` set acc" by auto
  have "f ` set ws \<inter> fst ` set (acc @ [(f w, g w)]) = {}"
    using Cons.prems by auto
  with Cons.prems have "fold (\<lambda>d. AList.update (f d) (g d)) ws (acc @ [(f w, g w)])
      = (acc @ [(f w, g w)]) @ map (\<lambda>d. (f d, g d)) ws"
    by (intro Cons.IH) simp_all
  then show ?case by (simp add: update_fresh [OF fresh])
qed

lemma standard_slot_dict:
  "standard_days wds \<Longrightarrow> slot_counts_by_day wds = map (\<lambda>d. (wd_day d, wd_total_hours d)) wds"
  unfolding slot_counts_by_day_def standard_days_def
  using fold_update_distinct [of wd_day wds "[]" wd_total_hours] by simp

lemma str_nat_hd: "str_nat n \<noteq> [] \<and> is_digit (hd (str_nat n))"
proof (induction n rule: str_nat.induct)
  case (1 n)
  show ?case
  proof (cases "n < 10")
    case True
    then have "n \<in> {0, 1, 2, 3, 4, 5, 6, 7, 8, 9}" by auto
    then have "is_digit (digit_char n)"
      by (auto simp: is_digit_def digit_char_def)
    with True show ?thesis by (simp add: str_nat.simps [of n])
  next
    case False
    with 1 show ?thesis by (simp add: str_nat.simps [of n])
  qed
qed

lemma week_abbrevs:
  "map abbrev_of week_days = [''M'', ''T'', ''W'', ''Th'', ''F'', ''Sa'', ''Su'']"
  by (simp add: week_days_def abbrev_of_def day_abbreviations_def)

lemma abbrev_letters: "d \<in> set week_days \<Longrightarrow> \<forall>c\<in>set (abbrev_of d). \<not> is_digit c"
proof -
  assume "d \<in> set week_days"
  then have "abbrev_of d \<in> set (map abbrev_of week_days)" by simp
  then show ?thesis unfolding week_abbrevs by (auto simp: is_digit_def)
qed

lemma abbrev_inj: "d \<in> set week_days \<Longrightarrow> d' \<in> set week_days \<Longrightarrow> abbrev_of d = abbrev_of d' \<Longrightarrow> d = d'"
proof -
  have "distinct (map abbrev_of week_days)" unfolding week_abbrevs by simp
  then have "inj_on abbrev_of (set week_days)" by (simp add: distinct_map)
  then show "d \<in> set week_days \<Longrightarrow> d' \<in> set week_days \<Longrightarrow> abbrev_of d = abbrev_of d' \<Longrightarrow> d = d'"
    by (rule inj_onD)
qed

lemma lower_inj: "d \<in> set week_days \<Longrightarrow> d' \<in> set week_days \<Longrightarrow> lower d = lower d' \<Longrightarrow> d = d'"
proof -
  have "distinct (map lower week_days)"
    using lower_week_eval by (simp add: lower_week_def)
  then have "inj_on lower (set week_days)" by (simp add: distinct_map)
  then show "d \<in> set week_days \<Longrightarrow> d' \<in> set week_days \<Longrightarrow> lower d = lower d' \<Longrightarrow> d = d'"
    by (rule inj_onD)
qed

lemma name_prefix:
  assumes "d \<in> set week_days"
  shows "takeWhile (\<lambda>c. \<not> is_digit c) (slot_name_of (abbrev_of d) j) = abbrev_of d"
proof -
  from str_nat_hd [of "Suc j"] obtain c cs where s: "str_nat (Suc j) = c # cs" and c: "is_digit c"
    by (cases "str_nat (Suc j)") auto
  from abbrev_letters [OF assms] show ?thesis
    by (simp add: slot_name_of_def s c takeWhile_append2)
qed

lemma names_disjoint:
  assumes "d \<in> set week_days" and "d' \<in> set week_days"
    and "nm \<in> set (day_names (d, h))" and "nm \<in> set (day_names (d', h'))"
  shows "d = d'"
proof -
  from assms(3) obtain j where "nm = slot_name_of (abbrev_of d) j" by (auto simp: day_names_def)
  with name_prefix [OF assms(1)] have 1: "takeWhile (\<lambda>c. \<not> is_digit c) nm = abbrev_of d" by simp
  from assms(4) obtain j' where "nm = slot_name_of (abbrev_of d') j'" by (auto simp: day_names_def)
  with name_prefix [OF assms(2)] have 2: "takeWhile (\<lambda>c. \<not> is_digit c) nm = abbrev_of d'" by simp
  from 1 2 abbrev_inj [OF assms(1,2)] show ?thesis by simp
qed


lemma concat_map_block:
  assumes "i < length (concat (map f xs))"
    and "\<forall>x\<in>set xs. length (g x) = length (f x)"
    and "\<forall>x\<in>set xs. length (h x) = length (f x)"
  shows "\<exists>k j. k < length xs \<and> j < length (f (xs ! k))
           \<and> i = sum_list (map (\<lambda>x. length (f x)) (take k xs)) + j
           \<and> concat (map f xs) ! i = f (xs ! k) ! j
           \<and> concat (map g xs) ! i = g (xs ! k) ! j
           \<and> concat (map h xs) ! i = h (xs ! k) ! j"
  using assms
proof (induction xs arbitrary: i)
  case Nil
  then show ?case by simp
next
  case (Cons x xs)
  show ?case
  proof (cases "i < length (f x)")
    case True
    with Cons.prems have "0 < length (x # xs) \<and> i < length (f ((x # xs) ! 0))
           \<and> i = sum_list (map (\<lambda>x. length (f x)) (take 0 (x # xs))) + i
           \<and> concat (map f (x # xs)) ! i = f ((x # xs) ! 0) ! i
           \<and> concat (map g (x # xs)) ! i = g ((x # xs) ! 0) ! i
           \<and> concat (map h (x # xs)) ! i = h ((x # xs) ! 0) ! i"
      by (simp add: nth_append)
    then show ?thesis by blast
  next
    case False
    define i' where "i' = i - length (f x)"
    from False Cons.prems(1) have i': "i' < length (concat (map f xs))" and i: "i = length (f x) + i'"
      by (simp_all add: i'_def)
    from Cons.prems have "\<forall>x\<in>set xs. length (g x) = length (f x)"
      and "\<forall>x\<in>set xs. length (h x) = length (f x)" by simp_all
    from Cons.IH [OF i' this] obtain k j where kj: "k < length xs" "j < length (f (xs ! k))"
      "i' = sum_list (map (\<lambda>x. length (f x)) (take k xs)) + j"
      "concat (map f xs) ! i' = f (xs ! k) ! j"
      "concat (map g xs) ! i' = g (xs ! k) ! j"
      "concat (map h xs) ! i' = h (xs ! k) ! j"
      by blast
    from Cons.prems have lens: "length (g x) = length (f x)" "length (h x) = length (f x)" by simp_all
    have "Suc k < length (x # xs) \<and> j < length (f ((x # xs) ! Suc k))
           \<and> i = sum_list (map (\<lambda>x. length (f x)) (take (Suc k) (x # xs))) + j
           \<and> concat (map f (x # xs)) ! i = f ((x # xs) ! Suc k) ! j
           \<and> concat (map g (x # xs)) ! i = g ((x # xs) ! Suc k) ! j
           \<and> concat (map h (x # xs)) ! i = h ((x # xs) ! Suc k) ! j"
      using kj lens by (simp add: i nth_append)
    then show ?thesis by blast
  qed
qed

lemma hour_at_mono: "p \<le> q \<Longrightarrow> hour_at s p + int (q - p) \<le> hour_at s q"
  by (auto simp: hour_at_def)

lemma standard_good:
  assumes std: "standard_days wds"
    and ts: "get_time_slots (slot_counts_by_day wds) (start_times_of wds) = Inr ts"
  shows "good_calendar ts"
proof -
  define sd where "sd = slot_counts_by_day wds"
  define stm where "stm = start_times_of wds"
  let ?lab = "\<lambda>dh :: string \<times> int. replicate (nat (snd dh)) (lower (fst dh))"
  have sd_eq: "sd = map (\<lambda>d. (wd_day d, wd_total_hours d)) wds"
    unfolding sd_def using std by (rule standard_slot_dict)
  have dist: "distinct (map fst sd)" and week: "\<forall>dh\<in>set sd. fst dh \<in> set week_days"
    using std by (auto simp: sd_eq standard_days_def comp_def)
  have wf: "wf_slots ts" using ts by (rule get_time_slots_wf)
  have names: "slot_names ts = concat (map day_names sd)"
    using ts unfolding sd_def by (rule get_time_slots_names)
  have time: "slot_time ts i = Some (concat (map (day_hours stm) sd) ! i)" if "i < length (slot_names ts)" for i
    using get_time_slots_time [OF ts, of i] that by (simp add: sd_def stm_def)
  have to_day: "slot_to_day ts nm =
     (case filter (\<lambda>dh. nm \<in> set (day_names dh)) (rev sd) of
        [] \<Rightarrow> None
      | dh # _ \<Rightarrow> Some (lower (fst dh)))" for nm
  proof -
    from ts obtain st' where run: "days_loop sd stm \<lparr> slot_names = [], slot_time = Map.empty, slot_to_day = Map.empty,
               day_slot_counts = Map.empty, idx = 0, start = 0, day_count = 0 \<rparr> = Inr st'"
      and eq: "slot_to_day ts = slot_to_day st'"
      unfolding sd_def stm_def by (rule get_time_slots_loop)
    show ?thesis unfolding eq days_loop_to_day [OF run] by (simp split: list.split)
  qed
  have block: "\<exists>k j. k < length sd \<and> j < nat (snd (sd ! k))
           \<and> i = sum_list (map (\<lambda>x. length (day_names x)) (take k sd)) + j
           \<and> slot_names ts ! i = day_names (sd ! k) ! j
           \<and> slot_hour ts i = day_hours stm (sd ! k) ! j
           \<and> day_label ts i = Some (lower (fst (sd ! k)))"
    if i: "i < length (slot_names ts)" for i
  proof -
    from i have "i < length (concat (map day_names sd))" by (simp add: names)
    from concat_map_block [OF this, of "day_hours stm" ?lab]
    obtain k j where kj: "k < length sd" "j < length (day_names (sd ! k))"
        "i = sum_list (map (\<lambda>x. length (day_names x)) (take k sd)) + j"
        "concat (map day_names sd) ! i = day_names (sd ! k) ! j"
        "concat (map (day_hours stm) sd) ! i = day_hours stm (sd ! k) ! j"
      by auto
    have mem: "sd ! k \<in> set sd" using kj(1) by simp
    have nm: "slot_names ts ! i \<in> set (day_names (sd ! k))"
      using kj(2,4) by (simp add: names)
    have "filter (\<lambda>dh. slot_names ts ! i \<in> set (day_names dh)) (rev sd) \<noteq> []"
      using mem nm by (auto simp: filter_empty_conv)
    then obtain dh rest where f: "filter (\<lambda>dh. slot_names ts ! i \<in> set (day_names dh)) (rev sd) = dh # rest"
      by (cases "filter (\<lambda>dh. slot_names ts ! i \<in> set (day_names dh)) (rev sd)") auto
    then have "dh \<in> set (filter (\<lambda>dh. slot_names ts ! i \<in> set (day_names dh)) (rev sd))" by simp
    then have dh: "dh \<in> set sd" "slot_names ts ! i \<in> set (day_names dh)" by simp_all
    have "fst dh = fst (sd ! k)"
      using names_disjoint [of "fst dh" "fst (sd ! k)" "slot_names ts ! i" "snd dh" "snd (sd ! k)"]
        week dh mem nm by simp
    then have lab: "day_label ts i = Some (lower (fst (sd ! k)))"
      by (simp add: day_label_def to_day f)
    have "slot_hour ts i = day_hours stm (sd ! k) ! j"
      using time [OF i] kj(5) by (simp add: slot_hour_def)
    with kj lab show ?thesis by (auto simp: names)
  qed
  have labels: "\<forall>i<length (slot_names ts). \<exists>l\<in>set lower_week. day_label ts i = Some l"
  proof (intro allI impI)
    fix i assume "i < length (slot_names ts)"
    from block [OF this] obtain k where k: "k < length sd" "day_label ts i = Some (lower (fst (sd ! k)))"
      by blast
    with week have "fst (sd ! k) \<in> set week_days" by simp
    then have "lower (fst (sd ! k)) \<in> set lower_week" by (simp add: lower_week_def)
    with k show "\<exists>l\<in>set lower_week. day_label ts i = Some l" by blast
  qed
  have mono: "\<forall>j<length (slot_names ts). \<forall>i\<le>j. day_label ts i = day_label ts j \<longrightarrow>
          slot_hour ts i + int (j - i) \<le> slot_hour ts j"
  proof (intro allI impI)
    fix j i assume j: "j < length (slot_names ts)" and ij: "i \<le> j"
      and same: "day_label ts i = day_label ts j"
    from ij j have i: "i < length (slot_names ts)" by simp
    from block [OF i] obtain k p where kp: "k < length sd" "p < nat (snd (sd ! k))"
        "i = sum_list (map (\<lambda>x. length (day_names x)) (take k sd)) + p"
        "slot_hour ts i = day_hours stm (sd ! k) ! p"
        "day_label ts i = Some (lower (fst (sd ! k)))"
      by blast
    from block [OF j] obtain k' q where kq: "k' < length sd" "q < nat (snd (sd ! k'))"
        "j = sum_list (map (\<lambda>x. length (day_names x)) (take k' sd)) + q"
        "slot_hour ts j = day_hours stm (sd ! k') ! q"
        "day_label ts j = Some (lower (fst (sd ! k')))"
      by blast
    from same kp(5) kq(5) have "lower (fst (sd ! k)) = lower (fst (sd ! k'))" by simp
    moreover from week kp(1) kq(1) have "fst (sd ! k) \<in> set week_days" "fst (sd ! k') \<in> set week_days"
      by simp_all
    ultimately have "fst (sd ! k) = fst (sd ! k')" by (rule lower_inj [rotated 2])
    then have "map fst sd ! k = map fst sd ! k'" using kp(1) kq(1) by simp
    with dist kp(1) kq(1) have kk: "k = k'"
      using nth_eq_iff_index_eq [of "map fst sd" k k'] by simp
    from kp(3) kq(3) ij have pq: "p \<le> q" and diff: "j - i = q - p" by (simp_all add: kk)
    show "slot_hour ts i + int (j - i) \<le> slot_hour ts j"
      using kp(2,4) kq(2,4) hour_at_mono [OF pq]
      by (simp add: kk diff day_hours_def hours_seq_nth)
  qed
  from wf labels mono show ?thesis by (simp add: good_calendar_def)
qed

section \<open>Clock times as strings\<close>

lemma digit_cases: "d < 10 \<Longrightarrow> d \<in> {0, 1, 2, 3, 4, 5, 6, 7, 8, 9 :: nat}"
  by auto

lemma digit_value_char: "d < 10 \<Longrightarrow> digit_value (digit_char d) = d"
  by (drule digit_cases) (auto simp: digit_value_def digit_char_def)

lemma digit_char_code: "d < 10 \<Longrightarrow> (of_char (digit_char d) :: nat) = 48 + d"
  by (drule digit_cases) (auto simp: digit_char_def)

lemma digit_char_is_digit: "d < 10 \<Longrightarrow> is_digit (digit_char d)"
  by (drule digit_cases) (auto simp: digit_char_def is_digit_def)

lemma digit_char_less: "d < 10 \<Longrightarrow> e < 10 \<Longrightarrow> digit_char d < digit_char e \<longleftrightarrow> d < e"
  by (simp add: less_char_def digit_char_code)

lemma digit_char_eq: "d < 10 \<Longrightarrow> e < 10 \<Longrightarrow> digit_char d = digit_char e \<longleftrightarrow> d = e"
  by (metis digit_value_char)

lemma str_nat_digits: "\<forall>c\<in>set (str_nat n). is_digit c"
proof (induction n rule: str_nat.induct)
  case (1 n)
  show ?case
  proof (cases "n < 10")
    case True
    then show ?thesis by (simp add: str_nat.simps [of n] digit_char_is_digit)
  next
    case False
    with 1 show ?thesis by (simp add: str_nat.simps [of n] digit_char_is_digit)
  qed
qed

lemma parse_nat_snoc: "parse_nat (s @ [c]) = 10 * parse_nat s + digit_value c"
  by (simp add: parse_nat_def)

lemma parse_str_nat: "parse_nat (str_nat n) = n"
proof (induction n rule: str_nat.induct)
  case (1 n)
  show ?case
  proof (cases "n < 10")
    case True
    then show ?thesis by (simp add: str_nat.simps [of n] parse_nat_def digit_value_char)
  next
    case False
    with 1 have "parse_nat (str_nat (n div 10)) = n div 10" by simp
    with False show ?thesis
      by (simp add: str_nat.simps [of n] parse_nat_snoc digit_value_char)
  qed
qed

lemma takeWhile_colon:
  assumes "\<forall>c\<in>set s. c \<noteq> CHR '':''"
  shows "takeWhile (\<lambda>c. c \<noteq> CHR '':'') (s @ '':00'') = s"
  using assms by (simp add: takeWhile_append2)

lemma digit_not_colon: "is_digit c \<Longrightarrow> c \<noteq> CHR '':'' \<and> c \<noteq> CHR ''-''"
  by (auto simp: is_digit_def)

lemma clock_hour_fmt: "clock_hour (fmt02d h @ '':00'') = h"
proof -
  have dig: "\<forall>c\<in>set (str_nat k). c \<noteq> CHR '':''" for k
    using str_nat_digits [of k] digit_not_colon by blast
  from str_nat_hd [of "nat h"] obtain c cs where s: "str_nat (nat h) = c # cs" and c: "is_digit c"
    by (cases "str_nat (nat h)") auto
  have c': "c \<noteq> CHR ''-''" using c digit_not_colon by blast
  consider "h < 0" | "0 \<le> h" "h < 10" | "10 \<le> h" by linarith
  then show ?thesis
  proof cases
    case 1
    have "takeWhile (\<lambda>c. c \<noteq> CHR '':'') ((''-'' @ str_nat (nat (- h))) @ '':00'') = ''-'' @ str_nat (nat (- h))"
      by (rule takeWhile_colon) (use dig in auto)
    with 1 show ?thesis by (simp add: clock_hour_def fmt02d_def parse_str_nat)
  next
    case 2
    have "takeWhile (\<lambda>c. c \<noteq> CHR '':'') ((''0'' @ str_nat (nat h)) @ '':00'') = ''0'' @ str_nat (nat h)"
      by (rule takeWhile_colon) (use dig in auto)
    moreover have "parse_nat (''0'' @ str_nat (nat h)) = nat h"
    proof -
      from 2 have n: "nat h < 10" by simp
      then have "str_nat (nat h) = [digit_char (nat h)]" by (simp add: str_nat.simps [of "nat h"])
      moreover have "digit_value CHR ''0'' = 0" by (simp add: digit_value_def)
      ultimately show ?thesis using n by (simp add: parse_nat_def digit_value_char)
    qed
    ultimately show ?thesis using 2 by (simp add: clock_hour_def fmt02d_def)
  next
    case 3
    have "takeWhile (\<lambda>c. c \<noteq> CHR '':'') (str_nat (nat h) @ '':00'') = str_nat (nat h)"
      by (rule takeWhile_colon) (use dig in auto)
    with 3 show ?thesis
      using parse_str_nat [of "nat h"] by (simp add: clock_hour_def fmt02d_def s c')
  qed
qed

lemma fmt02d_two_digits:
  assumes "0 \<le> h" and "h < 100"
  shows "fmt02d h = [digit_char (nat h div 10), digit_char (nat h mod 10)]"
proof (cases "h < 10")
  case True
  with assms have n: "nat h < 10" by simp
  then have "str_nat (nat h) = [digit_char (nat h)]" by (simp add: str_nat.simps [of "nat h"])
  with True assms n show ?thesis
    by (simp add: fmt02d_def digit_char_def)
next
  case False
  with assms have "nat h div 10 < 10" by simp
  with False assms show ?thesis
    by (simp add: fmt02d_def str_nat.simps [of "nat h"] str_nat.simps [of "nat h div 10"])
qed

lemma fmt02d_le:
  assumes "0 \<le> a" "a < 100" "0 \<le> b" "b < 100"
    and "fmt02d a @ '':00'' \<le> fmt02d b @ '':00''"
  shows "a \<le> b"
proof -
  define x where "x = nat a"
  define y where "y = nat b"
  have xy: "x < 100" "y < 100" "a = int x" "b = int y" using assms by (simp_all add: x_def y_def)
  have d: "x div 10 < 10" "y div 10 < 10" "x mod 10 < 10" "y mod 10 < 10" using xy by simp_all
  from assms(5) have "x div 10 < y div 10 \<or> x div 10 = y div 10 \<and> x mod 10 \<le> y mod 10"
    unfolding fmt02d_two_digits [OF assms(1,2)] fmt02d_two_digits [OF assms(3,4)]
    using d by (auto simp: x_def [symmetric] y_def [symmetric] digit_char_less digit_char_eq)
  then have "x \<le> y"
    by (metis div_mult_mod_eq less_or_eq_imp_le mod_less_divisor mult.commute not_less
          add_le_cancel_left div_le_mono linorder_not_le zero_less_numeral) 
  then show ?thesis by (simp add: xy)
qed

section \<open>Result Assembler: the returned schedule\<close>

lemma add_entry_bad_index:
  "\<not> start_val a (occ_id oc) < length (slot_names ts) \<Longrightarrow> add_entry ts sections a oc resp = Inl IndexError"
  by (simp add: add_entry_def Let_def py_index_def)

lemma add_entry_Inr:
  assumes "wf_slots ts" and "shaped sections resp" and "add_entry ts sections a oc resp = Inr resp'"
  shows "start_val a (occ_id oc) < length (slot_names ts)"
    and "in_response sections oc \<longrightarrow> day_of ts a oc \<in> set lower_week"
    and "resp' = extend_buckets (entries_for ts sections a [oc]) resp"
proof -
  show s: "start_val a (occ_id oc) < length (slot_names ts)"
    using assms(3) add_entry_bad_index [of a oc ts sections resp] by auto
  show d: "in_response sections oc \<longrightarrow> day_of ts a oc \<in> set lower_week"
    using assms(3) add_entry_missing_day [OF assms(1) s assms(2)] by auto
  show "resp' = extend_buckets (entries_for ts sections a [oc]) resp"
  proof (cases "in_response sections oc")
    case True
    with d have "day_of ts a oc \<in> set lower_week" by simp
    from add_entry_known [OF assms(1) s assms(2) True this] assms(3) show ?thesis by simp
  next
    case False
    from add_entry_unknown [OF assms(1) s assms(2) False]
      add_entry_unknown_extend [OF assms(2) False] assms(3)
    show ?thesis by simp
  qed
qed

lemma add_entries_Inr:
  assumes "wf_slots ts"
  shows "shaped sections resp \<Longrightarrow> add_entries ts sections a occs resp = Inr resp' \<Longrightarrow>
         (\<forall>oc\<in>set occs. start_val a (occ_id oc) < length (slot_names ts))
       \<and> (\<forall>oc\<in>set occs. in_response sections oc \<longrightarrow> day_of ts a oc \<in> set lower_week)"
proof (induction occs arbitrary: resp)
  case Nil
  then show ?case by simp
next
  case (Cons oc occs)
  from Cons.prems(2) obtain r1 where step: "add_entry ts sections a oc resp = Inr r1"
    and rest: "add_entries ts sections a occs r1 = Inr resp'"
    by (cases "add_entry ts sections a oc resp") auto
  note one = add_entry_Inr [OF assms Cons.prems(1) step]
  have "shaped sections r1" unfolding one(3) using Cons.prems(1) by (rule shaped_extend)
  from Cons.IH [OF this rest] one(1,2) show ?case by simp
qed

lemma build_response_Inr:
  assumes "wf_slots ts" and "build_response ts sections a occs = Inr resp"
  shows "\<forall>oc\<in>set occs. start_val a (occ_id oc) < length (slot_names ts)"
    and "\<forall>oc\<in>set occs. in_response sections oc \<longrightarrow> day_of ts a oc \<in> set lower_week"
    and "bucket resp y sec d =
           (if y \<in> set years \<and> sec \<in> set (map fst (year_sections sections y)) \<and> d \<in> set lower_week
            then Some (sort_key e_start_time (entries_for ts sections a occs y sec d))
            else None)"
proof -
  from assms(2) obtain r where r: "add_entries ts sections a occs (init_response sections) = Inr r"
    by (cases "add_entries ts sections a occs (init_response sections)") (auto simp: build_response_def)
  from add_entries_Inr [OF assms(1) shaped_init r]
  show v: "\<forall>oc\<in>set occs. start_val a (occ_id oc) < length (slot_names ts)"
    and d: "\<forall>oc\<in>set occs. in_response sections oc \<longrightarrow> day_of ts a oc \<in> set lower_week"
    by simp_all
  from build_response_bucket [OF assms(1) v d] assms(2)
  show "bucket resp y sec d =
           (if y \<in> set years \<and> sec \<in> set (map fst (year_sections sections y)) \<and> d \<in> set lower_week
            then Some (sort_key e_start_time (entries_for ts sections a occs y sec d))
            else None)"
    by auto
qed

lemma generate_Inr:
  assumes "build_model constraints courses teachers sections allow_free = Inr (ts, m)"
    and "generate_college_timetable_with_sections solve constraints courses teachers sections
           allow_free max_time_seconds = Inr resp"
  obtains st a where "solve max_time_seconds m = (st, a)" and "st = OPTIMAL \<or> st = FEASIBLE"
    and "build_response ts sections a (occ_metadata m) = Inr resp"
proof -
  obtain st a where sa: "solve max_time_seconds m = (st, a)" by (cases "solve max_time_seconds m")
  from assms sa have "st = OPTIMAL \<or> st = FEASIBLE"
    and "build_response ts sections a (occ_metadata m) = Inr resp"
    by (auto simp: generate_college_timetable_with_sections_def split: if_splits)
  with sa that show thesis by blast
qed

lemma sorted_by_clock:
  assumes "\<forall>e\<in>set es. \<exists>h. 0 \<le> h \<and> h < 100 \<and> e_start_time e = fmt02d h @ '':00''"
  shows "sorted (map (clock_hour \<circ> e_start_time) (sort_key e_start_time es))"
proof -
  have "sorted (map e_start_time (sort_key e_start_time es))" by (rule sorted_sort_key)
  then have "sorted_wrt (\<lambda>x y. e_start_time x \<le> e_start_time y) (sort_key e_start_time es)"
    by (simp add: sorted_map)
  then have "sorted_wrt (\<lambda>x y. clock_hour (e_start_time x) \<le> clock_hour (e_start_time y))
               (sort_key e_start_time es)"
  proof (rule sorted_wrt_mono_rel [rotated])
    fix x y
    assume "x \<in> set (sort_key e_start_time es)" "y \<in> set (sort_key e_start_time es)"
      and le: "e_start_time x \<le> e_start_time y"
    with assms obtain h k where h: "0 \<le> h" "h < 100" "e_start_time x = fmt02d h @ '':00''"
      and k: "0 \<le> k" "k < 100" "e_start_time y = fmt02d k @ '':00''"
      by (metis set_sort)
    from le have "h \<le> k" unfolding h(3) k(3) by (rule fmt02d_le [OF h(1,2) k(1,2)])
    then show "clock_hour (e_start_time x) \<le> clock_hour (e_start_time y)"
      by (simp add: h(3) k(3) clock_hour_fmt)
  qed
  then show ?thesis by (simp add: sorted_map)
qed

text \<open>
  Claim C9, as amended. In a returned schedule every year of \<^verbatim>\<open>Year1\<close> to
  \<^verbatim>\<open>Year4\<close>, every section of that year and every day of the week has a bucket, empty or
  not, and each bucket is in ascending order of the text \<^verbatim>\<open>start_time\<close>, the key the
  code sorts on. Where every slot of the calendar has a clock hour from 0 to 99, so that
  the text has two digits before the colon, this is the ascending order of the start clock
  hours.
\<close>

theorem buckets_sorted_and_present:
  assumes "build_model constraints courses teachers sections allow_free = Inr (ts, m)"
    and "generate_college_timetable_with_sections solve constraints courses teachers sections
           allow_free max_time_seconds = Inr resp"
  shows "\<forall>y\<in>set years. \<forall>sec\<in>set (map fst (year_sections sections y)). \<forall>d\<in>set lower_week.
           \<exists>b. bucket resp y sec d = Some b
              \<and> sorted (map e_start_time b)
              \<and> (two_digit_hours ts \<longrightarrow> sorted (map (clock_hour \<circ> e_start_time) b))"
proof (intro ballI)
  fix y sec d
  assume y: "y \<in> set years" and sec: "sec \<in> set (map fst (year_sections sections y))"
    and d: "d \<in> set lower_week"
  from assms(1,2) obtain st a where br: "build_response ts sections a (occ_metadata m) = Inr resp"
    by (rule generate_Inr)
  have wf: "wf_slots ts" using assms(1) by (rule build_model_parts(5))
  note r = build_response_Inr [OF wf br]
  let ?es = "entries_for ts sections a (occ_metadata m) y sec d"
  have b: "bucket resp y sec d = Some (sort_key e_start_time ?es)"
    using r(3) [of y sec d] y sec d by simp
  have str: "sorted (map e_start_time (sort_key e_start_time ?es))" by (rule sorted_sort_key)
  have num: "sorted (map (clock_hour \<circ> e_start_time) (sort_key e_start_time ?es))"
    if td: "two_digit_hours ts"
  proof -
    have "\<forall>e\<in>set ?es. \<exists>h. 0 \<le> h \<and> h < 100 \<and> e_start_time e = fmt02d h @ '':00''"
    proof
      fix e assume "e \<in> set ?es"
      then obtain oc where oc: "oc \<in> set (occ_metadata m)" and e: "e = entry_of ts sections a oc"
        by (auto simp: entries_for_def)
      from r(1) oc have "start_val a (occ_id oc) < length (slot_names ts)" by blast
      with td have "0 \<le> start_hour ts a oc \<and> start_hour ts a oc < 100"
        by (simp add: two_digit_hours_def list_all_iff start_hour_def slot_hour_def)
      then show "\<exists>h. 0 \<le> h \<and> h < 100 \<and> e_start_time e = fmt02d h @ '':00''"
        by (auto simp: e entry_of_def)
    qed
    then show ?thesis by (rule sorted_by_clock)
  qed
  from b str num
  show "\<exists>b. bucket resp y sec d = Some b
           \<and> sorted (map e_start_time b)
           \<and> (two_digit_hours ts \<longrightarrow> sorted (map (clock_hour \<circ> e_start_time) b))"
    by blast
qed

theorem buckets_sorted_and_present_witness:
  "\<exists>ts m resp.
      build_model morning [maths_for ''A''] Map.empty (only_year1 [''A'']) True = Inr (ts, m)
    \<and> generate_college_timetable_with_sections (\<lambda>t m. (FEASIBLE, starts_of [1, 0, 2] [1, 1, 1]))
        morning [maths_for ''A''] Map.empty (only_year1 [''A'']) True 30 = Inr resp
    \<and> two_digit_hours ts
    \<and> (\<forall>y\<in>set years. \<forall>sec\<in>set (map fst (year_sections (only_year1 [''A'']) y)). \<forall>d\<in>set lower_week.
           \<exists>b. bucket resp y sec d = Some b
              \<and> sorted (map e_start_time b)
              \<and> sorted (map (clock_hour \<circ> e_start_time) b))
    \<and> map_option (map (clock_hour \<circ> e_start_time)) (bucket resp ''Year1'' ''A'' ''monday'') = Some [9, 10, 11]
    \<and> bucket resp ''Year1'' ''A'' ''sunday'' = Some []"
proof -
  let ?solve = "\<lambda>(t :: int) (m :: cp_model). (FEASIBLE, starts_of [1, 0, 2] [1, 1, 1])"
  let ?gen = "generate_college_timetable_with_sections ?solve
        morning [maths_for ''A''] Map.empty (only_year1 [''A'']) True 30"
  have ev: "case build_model morning [maths_for ''A''] Map.empty (only_year1 [''A'']) True of
          Inl e \<Rightarrow> False | Inr (ts, m) \<Rightarrow> two_digit_hours ts"
    by code_simp
  have ev2: "case ?gen of
          Inl e \<Rightarrow> False
        | Inr resp \<Rightarrow>
            map_option (map (clock_hour \<circ> e_start_time)) (bucket resp ''Year1'' ''A'' ''monday'') = Some [9, 10, 11]
          \<and> bucket resp ''Year1'' ''A'' ''sunday'' = Some []"
    by code_simp
  from ev obtain ts m where
    bm: "build_model morning [maths_for ''A''] Map.empty (only_year1 [''A'']) True = Inr (ts, m)"
    by (cases "build_model morning [maths_for ''A''] Map.empty (only_year1 [''A'']) True") auto
  from ev have td: "two_digit_hours ts" by (simp add: bm)
  from ev2 obtain resp where g: "?gen = Inr resp" by (cases ?gen) auto
  from ev2 [unfolded g] have vals: "map_option (map (clock_hour \<circ> e_start_time)) (bucket resp ''Year1'' ''A'' ''monday'') = Some [9, 10, 11]"
    "bucket resp ''Year1'' ''A'' ''sunday'' = Some []" by simp_all
  have srt: "\<forall>y\<in>set years. \<forall>sec\<in>set (map fst (year_sections (only_year1 [''A'']) y)). \<forall>d\<in>set lower_week.
           \<exists>b. bucket resp y sec d = Some b
              \<and> sorted (map e_start_time b)
              \<and> sorted (map (clock_hour \<circ> e_start_time) b)"
    using buckets_sorted_and_present [OF bm g] td by blast
  show ?thesis
    by (rule exI [of _ ts], rule exI [of _ m], rule exI [of _ resp], intro conjI)
       (rule bm g td srt vals)+
qed

text \<open>
  Claim C9 as stated fails when a clock hour has three digits. A Monday of two slots from
  hour 99, a teacher available from 99 to 101, two lectures placed in the two slots: the
  bucket comes back with \<^verbatim>\<open>100:00\<close> before \<^verbatim>\<open>99:00\<close>, the order of the strings.
\<close>

theorem string_order_counterexample:
  "(case build_model late_evening [two_maths] night_teacher (only_year1 [''A'']) False of
      Inl e \<Rightarrow> False
    | Inr (ts, m) \<Rightarrow> cp_sat m (starts_of [0, 1] [1, 1]))
   \<and> (case generate_college_timetable_with_sections (\<lambda>t m. (FEASIBLE, starts_of [0, 1] [1, 1]))
              late_evening [two_maths] night_teacher (only_year1 [''A'']) False 30 of
         Inl e \<Rightarrow> False
       | Inr resp \<Rightarrow>
           map_option (map e_start_time) (bucket resp ''Year1'' ''A'' ''monday'')
             = Some [''100:00'', ''99:00'']
         \<and> map_option (map entry_start) (bucket resp ''Year1'' ''A'' ''monday'') = Some [100, 99])"
  by code_simp

text \<open>
  Claim C10. When the solver reports a solution, the schedule returned is the one
  assembled from the occurrences whose year is one of \<^verbatim>\<open>Year1\<close> to \<^verbatim>\<open>Year4\<close>
  and whose section is a section of that year in the sections map (section \<^verbatim>\<open>A\<close>
  alone for a year the map lacks): every other occurrence leaves no entry and raises no
  error.
\<close>

theorem unknown_sections_omitted:
  assumes "build_model constraints courses teachers sections allow_free = Inr (ts, m)"
    and "solve max_time_seconds m = (st, a)" and "st = OPTIMAL \<or> st = FEASIBLE"
    and "cp_sat m a"
  shows "generate_college_timetable_with_sections solve constraints courses teachers sections
           allow_free max_time_seconds
         = build_response ts sections a (filter (in_response sections) (occ_metadata m))"
proof -
  have wf: "wf_slots ts" using assms(1) by (rule build_model_parts(5))
  have "\<forall>oc\<in>set (occ_metadata m). start_val a (occ_id oc) < length (slot_names ts)"
  proof
    fix oc assume "oc \<in> set (occ_metadata m)"
    from sat_placement [OF assms(1,4) this]
    show "start_val a (occ_id oc) < length (slot_names ts)" by blast
  qed
  from add_entries_filter [OF wf this shaped_init]
  have "build_response ts sections a (occ_metadata m)
        = build_response ts sections a (filter (in_response sections) (occ_metadata m))"
    by (simp add: build_response_def)
  with assms(1,2,3) show ?thesis
    by (auto simp: generate_college_timetable_with_sections_def)
qed


theorem unknown_sections_omitted_witness:
  "\<exists>ts m.
      build_model morning [maths_for ''A'', maths_for ''Z''] Map.empty (only_year1 [''A'']) False = Inr (ts, m)
    \<and> cp_sat m (starts_of [0, 1] [1, 1])
    \<and> map occ_id (occ_metadata m) = [0, 1]
    \<and> map occ_id (filter (in_response (only_year1 [''A''])) (occ_metadata m)) = [0]
    \<and> generate_college_timetable_with_sections (\<lambda>t m. (FEASIBLE, starts_of [0, 1] [1, 1]))
        morning [maths_for ''A'', maths_for ''Z''] Map.empty (only_year1 [''A'']) False 30
      = build_response ts (only_year1 [''A'']) (starts_of [0, 1] [1, 1])
          (filter (in_response (only_year1 [''A''])) (occ_metadata m))"
proof -
  have ev: "case build_model morning [maths_for ''A'', maths_for ''Z''] Map.empty (only_year1 [''A'']) False of
          Inl e \<Rightarrow> False
        | Inr (ts, m) \<Rightarrow>
            cp_sat m (starts_of [0, 1] [1, 1])
          \<and> map occ_id (occ_metadata m) = [0, 1]
          \<and> map occ_id (filter (in_response (only_year1 [''A''])) (occ_metadata m)) = [0]"
    by code_simp
  then obtain ts m where
    bm: "build_model morning [maths_for ''A'', maths_for ''Z''] Map.empty (only_year1 [''A'']) False = Inr (ts, m)"
    by (cases "build_model morning [maths_for ''A'', maths_for ''Z''] Map.empty (only_year1 [''A'']) False") auto
  from ev have facts: "cp_sat m (starts_of [0, 1] [1, 1])" "map occ_id (occ_metadata m) = [0, 1]"
    "map occ_id (filter (in_response (only_year1 [''A''])) (occ_metadata m)) = [0]"
    by (simp_all add: bm)
  have eq: "generate_college_timetable_with_sections (\<lambda>t m. (FEASIBLE, starts_of [0, 1] [1, 1]))
        morning [maths_for ''A'', maths_for ''Z''] Map.empty (only_year1 [''A'']) False 30
      = build_response ts (only_year1 [''A'']) (starts_of [0, 1] [1, 1])
          (filter (in_response (only_year1 [''A''])) (occ_metadata m))"
    using unknown_sections_omitted [OF bm, of "\<lambda>t m. (FEASIBLE, starts_of [0, 1] [1, 1])" 30 FEASIBLE
        "starts_of [0, 1] [1, 1]"] facts(1)
    by simp
  show ?thesis
    by (rule exI [of _ ts], rule exI [of _ m], intro conjI) (rule bm facts eq)+
qed

section \<open>The returned schedule: exclusivity\<close>

lemma insort_key_map:
  "insort_key f (g x) (map g xs) = map g (insort_key (\<lambda>z. f (g z)) x xs)"
  by (induction xs) auto

lemma sort_key_map: "sort_key f (map g xs) = map g (sort_key (\<lambda>z. f (g z)) xs)"
  by (induction xs) (simp_all add: insort_key_map)

lemma entry_of_clock:
  "entry_start (entry_of ts sections a oc) = start_hour ts a oc"
  "entry_end (entry_of ts sections a oc) = start_hour ts a oc + o_duration oc"
  by (simp_all add: entry_start_def entry_end_def entry_of_def clock_hour_fmt)

text \<open>
  An entry at position \<open>i\<close> of a bucket is the entry of one occurrence of that year,
  section and day, and different positions of a bucket belong to different occurrences.
\<close>

lemma bucket_positions:
  "sort_key e_start_time (entries_for ts sections a occs y sec d)
     = map (entry_of ts sections a) (bucket_occs ts sections a occs y sec d)"
  "distinct occs \<Longrightarrow> distinct (bucket_occs ts sections a occs y sec d)"
  "set (bucket_occs ts sections a occs y sec d)
     = {oc \<in> set occs. o_year oc = y \<and> o_section oc = sec \<and> day_of ts a oc = d}"
  by (auto simp: entries_for_def sort_key_map bucket_occs_def)

lemma bucket_Some:
  assumes "wf_slots ts" and "build_response ts sections a occs = Inr resp"
    and "bucket resp y sec d = Some b"
  shows "b = map (entry_of ts sections a) (bucket_occs ts sections a occs y sec d)"
  using build_response_Inr(3) [OF assms(1,2), of y sec d] assms(3)
  by (simp add: bucket_positions(1) split: if_splits)

text \<open>
  Every calendar whose working days are distinct days of the week has clock hours that
  follow the slot indices within a day. An occurrence has the duration of its course, and
  a ``Free'' course lasts one slot.
\<close>

lemma hours_follow_slotsD:
  assumes "hours_follow_slots ts" and "j < length (slot_names ts)" and "i \<le> j"
    and "day_label ts i = day_label ts j"
  shows "slot_hour ts i + int (j - i) \<le> slot_hour ts j"
proof -
  from assms(1,2) have "list_all (\<lambda>i. day_label ts i = day_label ts j \<longrightarrow>
                                   slot_hour ts i + int (j - i) \<le> slot_hour ts j) [0..<Suc j]"
    unfolding hours_follow_slots_def list_all_iff by simp
  moreover from assms(3) have "i \<in> set [0..<Suc j]" by auto
  ultimately show ?thesis using assms(4) unfolding list_all_iff by blast
qed

lemma week_calendar_follows:
  assumes "standard_days wds"
    and "get_time_slots (slot_counts_by_day wds) (start_times_of wds) = Inr ts"
  shows "hours_follow_slots ts"
  using standard_good [OF assms]
  by (auto simp: good_calendar_def hours_follow_slots_def list_all_iff)

lemma occ_durations:
  assumes "\<forall>c\<in>set courses. 0 \<le> c_duration c"
    and "build_model constraints courses teachers sections allow_free = Inr (ts, m)"
    and "oc \<in> set (occ_metadata m)"
  shows "0 \<le> o_duration oc"
proof -
  from assms(3) obtain c i where "(c, i) \<in> set (expand 0 (all_courses teachers sections allow_free (length (slot_names ts)) courses))"
    and oc: "oc = occ_of c i"
    unfolding build_model_parts(1) [OF assms(2)] by auto
  then have "c \<in> set (all_courses teachers sections allow_free (length (slot_names ts)) courses)"
    by (auto dest: expand_courses)
  with assms(1) have "0 \<le> p_duration c"
    by (auto simp: all_courses_def Let_def processed_fields free_course_def
          dest!: free_courses_shape split: if_splits)
  then show ?thesis by (simp add: oc occ_of_def)
qed

text \<open>
  The step from slot indices to clock hours: where the hours follow the slot indices, two
  placements on the same day that do not overlap as index intervals do not overlap as
  clock intervals either.
\<close>

lemma clock_no_overlap:
  assumes cal: "hours_follow_slots ts"
    and s1: "s1 < length (slot_names ts)" and s2: "s2 < length (slot_names ts)"
    and day: "day_label ts s1 = day_label ts s2"
    and d1: "0 \<le> d1" and d2: "0 \<le> d2"
    and no: "\<not> overlap (int s1) d1 (int s2) d2"
  shows "\<not> overlap (slot_hour ts s1) d1 (slot_hour ts s2) d2"
proof -
  from no have "int s1 + d1 \<le> int s2 \<or> int s2 + d2 \<le> int s1" by (simp add: overlap_def)
  then show ?thesis
  proof
    assume a: "int s1 + d1 \<le> int s2"
    with d1 have le: "s1 \<le> s2" by simp
    from hours_follow_slotsD [OF cal s2 le day] a le show ?thesis
      by (simp add: overlap_def of_nat_diff)
  next
    assume a: "int s2 + d2 \<le> int s1"
    with d2 have le: "s2 \<le> s1" by simp
    from hours_follow_slotsD [OF cal s1 le day [symmetric]] a le show ?thesis
      by (simp add: overlap_def of_nat_diff)
  qed
qed

lemma day_of_label:
  assumes "wf_slots ts" and "start_val a (occ_id oc) < length (slot_names ts)"
  shows "day_label ts (start_val a (occ_id oc)) = Some (day_of ts a oc)"
  using wf_slotsD [OF assms] by (auto simp: day_label_def day_of_def)

text \<open>
  Two different occurrences that share a teacher or a section key, placed on the same day
  by a solver answer that satisfies the model, show clock intervals that do not overlap.
\<close>

lemma exclusive_clock:
  assumes cal: "hours_follow_slots ts"
    and dur: "\<forall>c\<in>set courses. 0 \<le> c_duration c"
    and bm: "build_model constraints courses teachers sections allow_free = Inr (ts, m)"
    and sat: "cp_sat m a"
    and o1: "o1 \<in> set (occ_metadata m)" and o2: "o2 \<in> set (occ_metadata m)" and ne: "o1 \<noteq> o2"
    and same: "o_teacher o1 = o_teacher o2
               \<or> section_key (o_year o1) (o_section o1) = section_key (o_year o2) (o_section o2)"
    and day: "day_of ts a o1 = day_of ts a o2"
  shows "\<not> overlap (start_hour ts a o1) (o_duration o1) (start_hour ts a o2) (o_duration o2)"
proof -
  let ?s1 = "start_val a (occ_id o1)" and ?s2 = "start_val a (occ_id o2)"
  have wf: "wf_slots ts" using bm by (rule build_model_parts(5))
  from sat_placement [OF bm sat o1] have s1: "?s1 < length (slot_names ts)" by blast
  from sat_placement [OF bm sat o2] have s2: "?s2 < length (slot_names ts)" by blast
  have lab: "day_label ts ?s1 = day_label ts ?s2"
    using day_of_label [OF wf s1] day_of_label [OF wf s2] day by simp
  note no = sat_exclusive [OF bm sat o1 o2 ne same]
  from clock_no_overlap [OF cal s1 s2 lab occ_durations [OF dur bm o1] occ_durations [OF dur bm o2] no]
  show ?thesis by (simp add: start_hour_def slot_hour_def)
qed

text \<open>
  Claim C1, as amended. Suppose that on the calendar the clock hours follow the slot
  indices within each day label (of two slots with the same label, the one \<open>j - i\<close> places
  later is at least \<open>j - i\<close> hours later), that no course has a negative duration, and that
  the solver's answer satisfies the model it was given. Then in the returned schedule any
  two entries at different places (another year, section or position in the bucket) that
  are on the same day and name the same teacher have clock intervals \<open>[start, end)\<close> that
  do not overlap. Every calendar whose working days are distinct days of the week meets
  the first condition.
\<close>

theorem no_teacher_double_booking:
  assumes "build_model constraints courses teachers sections allow_free = Inr (ts, m)"
    and "hours_follow_slots ts"
    and "\<forall>c\<in>set courses. 0 \<le> c_duration c"
    and "solve max_time_seconds m = (st, a)" and "cp_sat m a"
    and "generate_college_timetable_with_sections solve constraints courses teachers sections
           allow_free max_time_seconds = Inr resp"
    and "bucket resp y1 sec1 d = Some b1" and "bucket resp y2 sec2 d = Some b2"
    and "i1 < length b1" and "i2 < length b2" and "(y1, sec1, i1) \<noteq> (y2, sec2, i2)"
    and "e_teacher (b1 ! i1) = e_teacher (b2 ! i2)"
  shows "\<not> overlap (entry_start (b1 ! i1)) (entry_end (b1 ! i1) - entry_start (b1 ! i1))
                     (entry_start (b2 ! i2)) (entry_end (b2 ! i2) - entry_start (b2 ! i2))"
proof -
  let ?occs = "occ_metadata m"
  let ?l1 = "bucket_occs ts sections a ?occs y1 sec1 d"
  let ?l2 = "bucket_occs ts sections a ?occs y2 sec2 d"
  from assms(1,6) obtain st' a' where "solve max_time_seconds m = (st', a')"
    and "build_response ts sections a' ?occs = Inr resp"
    by (rule generate_Inr)
  with assms(4) have br: "build_response ts sections a ?occs = Inr resp" by simp
  have wf: "wf_slots ts" using assms(1) by (rule build_model_parts(5))
  have b1: "b1 = map (entry_of ts sections a) ?l1" using wf br assms(7) by (rule bucket_Some)
  have b2: "b2 = map (entry_of ts sections a) ?l2" using wf br assms(8) by (rule bucket_Some)
  note dist = build_model_distinct(2) [OF assms(1)]
  define o1 where "o1 = ?l1 ! i1"
  define o2 where "o2 = ?l2 ! i2"
  have i1: "i1 < length ?l1" and i2: "i2 < length ?l2" using assms(9,10) by (simp_all add: b1 b2)
  have m1: "o1 \<in> set ?l1" and m2: "o2 \<in> set ?l2" using i1 i2 by (simp_all add: o1_def o2_def)
  then have p1: "o1 \<in> set ?occs" "o_year o1 = y1" "o_section o1 = sec1" "day_of ts a o1 = d"
    and p2: "o2 \<in> set ?occs" "o_year o2 = y2" "o_section o2 = sec2" "day_of ts a o2 = d"
    by (simp_all add: bucket_positions(3))
  have e1: "b1 ! i1 = entry_of ts sections a o1" using i1 by (simp add: b1 o1_def)
  have e2: "b2 ! i2 = entry_of ts sections a o2" using i2 by (simp add: b2 o2_def)
  have ne: "o1 \<noteq> o2"
  proof (cases "y1 = y2 \<and> sec1 = sec2")
    case True
    with assms(11) have "i1 \<noteq> i2" by simp
    moreover have "distinct ?l1" using dist by (rule bucket_positions(2))
    ultimately show ?thesis
      using i1 i2 True by (simp add: o1_def o2_def nth_eq_iff_index_eq)
  next
    case False
    with p1(2,3) p2(2,3) show ?thesis by auto
  qed
  have t: "o_teacher o1 = o_teacher o2"
    using assms(12) by (simp add: e1 e2 entry_of_def)
  then have same: "o_teacher o1 = o_teacher o2
      \<or> section_key (o_year o1) (o_section o1) = section_key (o_year o2) (o_section o2)" by simp
  have day: "day_of ts a o1 = day_of ts a o2" by (simp add: p1(4) p2(4))
  from exclusive_clock [OF assms(2,3,1,5) p1(1) p2(1) ne same day]
  show ?thesis by (simp add: e1 e2 entry_of_clock)
qed

theorem no_teacher_double_booking_witness:
  "\<exists>ts m resp b1 b2.
      build_model morning [maths_for ''A'', maths_for ''B''] Map.empty (only_year1 [''A'', ''B'']) False
        = Inr (ts, m)
    \<and> hours_follow_slots ts
    \<and> cp_sat m (starts_of [0, 1] [1, 1])
    \<and> generate_college_timetable_with_sections (\<lambda>t m. (FEASIBLE, starts_of [0, 1] [1, 1]))
        morning [maths_for ''A'', maths_for ''B''] Map.empty (only_year1 [''A'', ''B'']) False 30 = Inr resp
    \<and> bucket resp ''Year1'' ''A'' ''monday'' = Some b1
    \<and> bucket resp ''Year1'' ''B'' ''monday'' = Some b2
    \<and> 0 < length b1 \<and> 0 < length b2
    \<and> e_teacher (b1 ! 0) = e_teacher (b2 ! 0)
    \<and> \<not> overlap (entry_start (b1 ! 0)) (entry_end (b1 ! 0) - entry_start (b1 ! 0))
                  (entry_start (b2 ! 0)) (entry_end (b2 ! 0) - entry_start (b2 ! 0))"
proof -
  let ?cs = "[maths_for ''A'', maths_for ''B'']"
  let ?secs = "only_year1 [''A'', ''B'']"
  let ?a = "starts_of [0, 1] [1, 1]"
  let ?solve = "\<lambda>(t :: int) (m :: cp_model). (FEASIBLE, ?a)"
  let ?gen = "generate_college_timetable_with_sections ?solve morning ?cs Map.empty ?secs False 30"
  have ev: "case build_model morning ?cs Map.empty ?secs False of
          Inl e \<Rightarrow> False | Inr (ts, m) \<Rightarrow> cp_sat m ?a \<and> hours_follow_slots ts"
    by code_simp
  have ev2: "case ?gen of
          Inl e \<Rightarrow> False
        | Inr resp \<Rightarrow>
            (case bucket resp ''Year1'' ''A'' ''monday'' of
               None \<Rightarrow> False
             | Some b1 \<Rightarrow>
                (case bucket resp ''Year1'' ''B'' ''monday'' of
                   None \<Rightarrow> False
                 | Some b2 \<Rightarrow> 0 < length b1 \<and> 0 < length b2 \<and> e_teacher (b1 ! 0) = e_teacher (b2 ! 0)))"
    by code_simp
  from ev obtain ts m where bm: "build_model morning ?cs Map.empty ?secs False = Inr (ts, m)"
    by (cases "build_model morning ?cs Map.empty ?secs False") auto
  from ev [unfolded bm] have sat: "cp_sat m ?a" and cal: "hours_follow_slots ts" by simp_all
  from ev2 obtain resp where g: "?gen = Inr resp" by (cases ?gen) auto
  from ev2 [unfolded g] obtain b1 where k1: "bucket resp ''Year1'' ''A'' ''monday'' = Some b1"
    by (cases "bucket resp ''Year1'' ''A'' ''monday''") auto
  from ev2 [unfolded g] k1 obtain b2 where k2: "bucket resp ''Year1'' ''B'' ''monday'' = Some b2"
    by (cases "bucket resp ''Year1'' ''B'' ''monday''") auto
  from ev2 [unfolded g] k1 k2 have l: "0 < length b1" "0 < length b2"
    and t: "e_teacher (b1 ! 0) = e_teacher (b2 ! 0)"
    by simp_all
  have dur: "\<forall>c\<in>set ?cs. 0 \<le> c_duration c" by (simp add: maths_for_def)
  have s: "?solve 30 m = (FEASIBLE, ?a)" by simp
  have pos: "(''Year1'', ''A'', 0 :: nat) \<noteq> (''Year1'', ''B'', 0)" by simp
  note no = no_teacher_double_booking [OF bm cal dur s sat g k1 k2 l pos t]
  show ?thesis
    by (rule exI [of _ ts], rule exI [of _ m], rule exI [of _ resp], rule exI [of _ b1],
        rule exI [of _ b2], intro conjI)
       (rule bm cal sat g k1 k2 l t no)+
qed

text \<open>
  Claim C1 as stated fails when two working days carry the same label. The days
  \<^verbatim>\<open>Monday\<close> and \<^verbatim>\<open>MONDAY\<close>, one slot each at 9: the slots \<^verbatim>\<open>M1\<close> and \<^verbatim>\<open>MO1\<close>
  are both labelled \<^verbatim>\<open>monday\<close>. Two lectures of teacher T for the sections A and B,
  placed in the two slots, satisfy every constraint of the model, and the schedule shows
  T from 09:00 to 10:00 twice on that day.
\<close>

theorem same_label_twice_counterexample:
  "(case build_model twice_monday [maths_for ''A'', maths_for ''B''] Map.empty
           (only_year1 [''A'', ''B'']) False of
      Inl e \<Rightarrow> False
    | Inr (ts, m) \<Rightarrow> cp_sat m (starts_of [0, 1] [1, 1]) \<and> slot_names ts = [''M1'', ''MO1''])
   \<and> (case generate_college_timetable_with_sections (\<lambda>t m. (FEASIBLE, starts_of [0, 1] [1, 1]))
              twice_monday [maths_for ''A'', maths_for ''B''] Map.empty (only_year1 [''A'', ''B'']) False 30 of
         Inl e \<Rightarrow> False
       | Inr resp \<Rightarrow>
           map_option (map (\<lambda>e. (e_teacher e, entry_start e, entry_end e)))
             (bucket resp ''Year1'' ''A'' ''monday'') = Some [(''T'', 9, 10)]
         \<and> map_option (map (\<lambda>e. (e_teacher e, entry_start e, entry_end e)))
             (bucket resp ''Year1'' ''B'' ''monday'') = Some [(''T'', 9, 10)])
   \<and> overlap 9 (10 - 9) 9 (10 - 9)"
  by code_simp

section \<open>Free-period padding: counting\<close>

lemma sum_insort_key: "sum_list (map g (insort_key k x xs)) = g x + sum_list (map g xs)"
  for g :: "'a \<Rightarrow> int"
  by (induction xs) auto

lemma sum_sort_key: "sum_list (map g (sort_key k xs)) = sum_list (map g xs)"
  for g :: "'a \<Rightarrow> int"
  by (induction xs) (simp_all add: sum_insort_key)

lemma sum_if_absent: "v \<notin> set ds \<Longrightarrow> (\<Sum>d\<leftarrow>ds. if v = d then c else 0) = (0 :: int)"
  by (induction ds) auto

lemma sum_if_once: "distinct ds \<Longrightarrow> v \<in> set ds \<Longrightarrow> (\<Sum>d\<leftarrow>ds. if v = d then c else 0) = (c :: int)"
  by (induction ds) (auto simp: sum_if_absent)

lemma sum_by_day:
  fixes g :: "'a \<Rightarrow> int"
  assumes "distinct ds" and "\<forall>x\<in>set xs. P x \<longrightarrow> f x \<in> set ds"
  shows "(\<Sum>d\<leftarrow>ds. sum_list (map g (filter (\<lambda>x. P x \<and> f x = d) xs))) = sum_list (map g (filter P xs))"
  using assms(2)
proof (induction xs)
  case Nil
  then show ?case by simp
next
  case (Cons x xs)
  from Cons have IH: "(\<Sum>d\<leftarrow>ds. sum_list (map g (filter (\<lambda>x. P x \<and> f x = d) xs))) = sum_list (map g (filter P xs))"
    by simp
  show ?case
  proof (cases "P x")
    case True
    with Cons.prems have mem: "f x \<in> set ds" by simp
    have "map (\<lambda>d. sum_list (map g (filter (\<lambda>x. P x \<and> f x = d) (x # xs)))) ds
        = map (\<lambda>d. (if f x = d then g x else 0) + sum_list (map g (filter (\<lambda>x. P x \<and> f x = d) xs))) ds"
      using True by simp
    then have "(\<Sum>d\<leftarrow>ds. sum_list (map g (filter (\<lambda>x. P x \<and> f x = d) (x # xs))))
        = (\<Sum>d\<leftarrow>ds. if f x = d then g x else 0)
          + (\<Sum>d\<leftarrow>ds. sum_list (map g (filter (\<lambda>x. P x \<and> f x = d) xs)))"
      by (simp only: sum_list_addf)
    also have "\<dots> = g x + sum_list (map g (filter P xs))"
      by (simp only: IH sum_if_once [OF assms(1) mem])
    finally show ?thesis using True by simp
  next
    case False
    have "map (\<lambda>d. sum_list (map g (filter (\<lambda>x. P x \<and> f x = d) (x # xs)))) ds
        = map (\<lambda>d. sum_list (map g (filter (\<lambda>x. P x \<and> f x = d) xs))) ds"
      using False by simp
    then show ?thesis using False IH by simp
  qed
qed

lemma filter_concat_key:
  assumes "distinct xs" and "x \<in> set xs" and "\<forall>z\<in>set xs. \<forall>c\<in>set (f z). k c = z"
  shows "filter (\<lambda>c. k c = x) (concat (map f xs)) = f x"
  using assms
proof (induction xs)
  case Nil
  then show ?case by simp
next
  case (Cons z xs)
  show ?case
  proof (cases "z = x")
    case True
    with Cons.prems have "x \<notin> set xs" by simp
    with Cons.prems(3) have "filter (\<lambda>c. k c = x) (concat (map f xs)) = []"
      by (auto simp: filter_empty_conv)
    moreover from Cons.prems(3) True have "filter (\<lambda>c. k c = x) (f z) = f x"
      by (auto simp: filter_id_conv)
    ultimately show ?thesis by simp
  next
    case False
    with Cons.prems have "x \<in> set xs" "distinct xs" "\<forall>z\<in>set xs. \<forall>c\<in>set (f z). k c = z" by auto
    from Cons.IH [OF this(2,1,3)] have "filter (\<lambda>c. k c = x) (concat (map f xs)) = f x" .
    moreover from Cons.prems(3) False have "filter (\<lambda>c. k c = x) (f z) = []"
      by (auto simp: filter_empty_conv)
    ultimately show ?thesis by simp
  qed
qed

lemma expand_sum:
  fixes h :: "pcourse \<Rightarrow> int"
  shows "sum_list (map (\<lambda>p. h (fst p)) (filter (\<lambda>p. Q (fst p)) (expand j pcs)))
         = (\<Sum>c\<leftarrow>filter Q pcs. int (nat (p_lectures c)) * h c)"
proof (induction pcs arbitrary: j)
  case Nil
  then show ?case by simp
next
  case (Cons c pcs)
  have "sum_list (map (\<lambda>p. h (fst p)) (filter (\<lambda>p. Q (fst p)) (map (Pair c) [j..<j + nat (p_lectures c)])))
        = (if Q c then int (nat (p_lectures c)) * h c else 0)"
    by (simp add: filter_map comp_def sum_list_triv)
  then show ?case by (simp add: Cons.IH)
qed

lemma section_requirements_Cons:
  "section_requirements (c # cs) reqs =
     section_requirements cs
       (reqs(section_key (p_year c) (p_section c) \<mapsto>
          (case reqs (section_key (p_year c) (p_section c)) of None \<Rightarrow> 0 | Some r \<Rightarrow> r)
          + p_lectures c * p_duration c))"
  by (cases "reqs (section_key (p_year c) (p_section c))") (simp_all add: Let_def)

lemma section_requirements_eq:
  "section_requirements cs reqs k =
     (if \<exists>c\<in>set cs. section_key (p_year c) (p_section c) = k
      then Some ((case reqs k of None \<Rightarrow> 0 | Some r \<Rightarrow> r)
                 + (\<Sum>c\<leftarrow>filter (\<lambda>c. section_key (p_year c) (p_section c) = k) cs. p_lectures c * p_duration c))
      else reqs k)"
proof (induction cs arbitrary: reqs)
  case Nil
  then show ?case by simp
next
  case (Cons c cs)
  let ?k0 = "section_key (p_year c) (p_section c)"
  let ?r = "reqs(?k0 \<mapsto> (case reqs ?k0 of None \<Rightarrow> 0 | Some r \<Rightarrow> r) + p_lectures c * p_duration c)"
  have step: "section_requirements (c # cs) reqs k = section_requirements cs ?r k"
    by (simp only: section_requirements_Cons)
  show ?case
  proof (cases "?k0 = k")
    case True
    then have "(case ?r k of None \<Rightarrow> 0 | Some r \<Rightarrow> r)
        = (case reqs k of None \<Rightarrow> 0 | Some r \<Rightarrow> r) + p_lectures c * p_duration c"
      and "?r k \<noteq> None" by simp_all
    with True show ?thesis
      unfolding step Cons.IH [of ?r] by (auto simp del: fun_upd_apply)
  next
    case False
    then have "?r k = reqs k" by simp
    with False show ?thesis
      unfolding step Cons.IH [of ?r] by (auto simp del: fun_upd_apply)
  qed
qed

lemma section_used:
  "(case section_requirements cs Map.empty k of None \<Rightarrow> 0 | Some r \<Rightarrow> r)
     = (\<Sum>c\<leftarrow>filter (\<lambda>c. section_key (p_year c) (p_section c) = k) cs. p_lectures c * p_duration c)"
proof (cases "\<exists>c\<in>set cs. section_key (p_year c) (p_section c) = k")
  case True
  then show ?thesis by (simp add: section_requirements_eq)
next
  case False
  then have "filter (\<lambda>c. section_key (p_year c) (p_section c) = k) cs = []"
    by (auto simp: filter_empty_conv)
  with False show ?thesis by (simp add: section_requirements_eq)
qed

lemma disjoint_cover_bound:
  assumes "distinct xs" and "\<forall>x\<in>set xs. I x \<subseteq> {..<n}"
    and "\<forall>x\<in>set xs. \<forall>y\<in>set xs. x \<noteq> y \<longrightarrow> I x \<inter> I y = {}"
  shows "(\<Sum>x\<leftarrow>xs. card (I x)) \<le> n"
proof -
  have fin: "\<forall>x\<in>set xs. finite (I x)"
    using assms(2) by (meson finite_lessThan finite_subset)
  have "(\<Sum>x\<leftarrow>xs. card (I x)) = (\<Sum>x\<in>set xs. card (I x))"
    using assms(1) by (simp add: sum_list_distinct_conv_sum_set)
  also have "\<dots> = card (\<Union>(I ` set xs))"
    using fin assms(3) by (simp add: card_UN_disjoint)
  also have "\<dots> \<le> card {..<n}"
    using assms(2) by (intro card_mono) auto
  finally show ?thesis by simp
qed

lemma placement_fits:
  assumes bm: "build_model constraints courses teachers sections allow_free = Inr (ts, m)"
    and sat: "cp_sat m a" and oc: "oc \<in> set (occ_metadata m)"
  shows "covered a oc \<subseteq> {..<length (slot_names ts)}" and "card (covered a oc) = nat (o_duration oc)"
proof -
  from sat_placement [OF bm sat oc] obtain c where
    c: "c \<in> set (all_courses teachers sections allow_free (length (slot_names ts)) courses)"
    and o: "oc = occ_of c (occ_id oc)"
    and d: "start_val a (occ_id oc) \<in> set (dom_of ts c)"
    and av: "allowed_vals ts c = Inr (dom_of ts c)"
    by blast
  have wf: "wf_slots ts" using bm by (rule build_model_parts(5))
  have od: "o_duration oc = p_duration c" by (subst o) (simp add: occ_of_def)
  show "covered a oc \<subseteq> {..<length (slot_names ts)}"
  proof (cases "1 \<le> p_duration c")
    case True
    from allowed_vals_filter [OF wf True] av
    have "dom_of ts c = filter (legal_start ts c) [0..<length (slot_names ts)]" by simp
    with d have "legal_start ts c (start_val a (occ_id oc))" by simp
    then have "int (start_val a (occ_id oc)) + p_duration c - 1 < int (length (slot_names ts))"
      by (simp add: legal_start_def Let_def)
    with True od show ?thesis by (auto simp: covered_def)
  next
    case False
    with od show ?thesis by (simp add: covered_def)
  qed
  show "card (covered a oc) = nat (o_duration oc)" by (simp add: covered_def)
qed

lemma sum_list_le_nat:
  fixes f :: "'a \<Rightarrow> int"
  shows "(\<Sum>x\<leftarrow>xs. f x) \<le> int (\<Sum>x\<leftarrow>xs. nat (f x))"
  by (induction xs) simp_all

lemma intervals_disjoint:
  fixes s1 s2 :: nat and d1 d2 :: int
  assumes "int s1 + d1 \<le> int s2 \<or> int s2 + d2 \<le> int s1"
  shows "{s1..<s1 + nat d1} \<inter> {s2..<s2 + nat d2} = {}"
proof -
  from assms have "s1 + nat d1 \<le> s2 \<or> s2 + nat d2 \<le> s1 \<or> nat d1 = 0 \<or> nat d2 = 0" by linarith
  then show ?thesis by auto
qed

lemma section_fits:
  assumes bm: "build_model constraints courses teachers sections allow_free = Inr (ts, m)"
    and sat: "cp_sat m a"
  shows "(\<Sum>oc\<leftarrow>filter (\<lambda>oc. o_year oc = y \<and> o_section oc = sec) (occ_metadata m). o_duration oc)
         \<le> int (length (slot_names ts))"
proof -
  define xs where "xs = filter (\<lambda>oc. o_year oc = y \<and> o_section oc = sec) (occ_metadata m)"
  have dist: "distinct xs" using build_model_distinct(2) [OF bm] by (simp add: xs_def)
  have mem: "oc \<in> set (occ_metadata m)" if "oc \<in> set xs" for oc using that by (simp add: xs_def)
  have pair: "o_year oc = y \<and> o_section oc = sec" if "oc \<in> set xs" for oc
    using that by (simp add: xs_def)
  have sub: "\<forall>oc\<in>set xs. covered a oc \<subseteq> {..<length (slot_names ts)}"
    using placement_fits(1) [OF bm sat] mem by blast
  have disj: "\<forall>o1\<in>set xs. \<forall>o2\<in>set xs. o1 \<noteq> o2 \<longrightarrow> covered a o1 \<inter> covered a o2 = {}"
  proof (intro ballI impI)
    fix o1 o2 assume o1: "o1 \<in> set xs" and o2: "o2 \<in> set xs" and ne: "o1 \<noteq> o2"
    have "section_key (o_year o1) (o_section o1) = section_key (o_year o2) (o_section o2)"
      by (simp only: pair [OF o1] pair [OF o2])
    then have "o_teacher o1 = o_teacher o2
        \<or> section_key (o_year o1) (o_section o1) = section_key (o_year o2) (o_section o2)" ..
    from sat_exclusive [OF bm sat mem [OF o1] mem [OF o2] ne this]
    have no: "int (start_val a (occ_id o1)) + o_duration o1 \<le> int (start_val a (occ_id o2))
            \<or> int (start_val a (occ_id o2)) + o_duration o2 \<le> int (start_val a (occ_id o1))"
      unfolding overlap_def by blast
    show "covered a o1 \<inter> covered a o2 = {}"
      unfolding covered_def using no by (rule intervals_disjoint)
  qed
  from disjoint_cover_bound [OF dist sub disj]
  have "(\<Sum>oc\<leftarrow>xs. card (covered a oc)) \<le> length (slot_names ts)" .
  moreover have "map (\<lambda>oc. card (covered a oc)) xs = map (\<lambda>oc. nat (o_duration oc)) xs"
    by (rule map_cong [OF refl]) (simp add: covered_def)
  ultimately have le: "(\<Sum>oc\<leftarrow>xs. nat (o_duration oc)) \<le> length (slot_names ts)" by (simp only:)
  have "(\<Sum>oc\<leftarrow>xs. o_duration oc) \<le> int (\<Sum>oc\<leftarrow>xs. nat (o_duration oc))"
    by (rule sum_list_le_nat)
  with le have "(\<Sum>oc\<leftarrow>xs. o_duration oc) \<le> int (length (slot_names ts))" by simp
  then show ?thesis by (simp only: xs_def)
qed

lemma occs_of_pair:
  assumes bm: "build_model constraints courses teachers sections allow_free = Inr (ts, m)"
  defines "pcs \<equiv> all_courses teachers sections allow_free (length (slot_names ts)) courses"
  shows "(\<Sum>oc\<leftarrow>filter (\<lambda>oc. o_year oc = y \<and> o_section oc = sec) (occ_metadata m). o_duration oc)
         = (\<Sum>c\<leftarrow>filter (\<lambda>c. p_year c = y \<and> p_section c = sec) pcs. int (nat (p_lectures c)) * p_duration c)"
    and "int (length (filter (\<lambda>oc. o_year oc = y \<and> o_section oc = sec) (occ_metadata m)))
         = (\<Sum>c\<leftarrow>filter (\<lambda>c. p_year c = y \<and> p_section c = sec) pcs. int (nat (p_lectures c)))"
proof -
  let ?Q = "\<lambda>c. p_year c = y \<and> p_section c = sec"
  let ?E = "expand 0 pcs"
  have occs: "occ_metadata m = map (\<lambda>(c, i). occ_of c i) ?E"
    unfolding pcs_def by (rule build_model_parts(1) [OF bm])
  have f: "filter (\<lambda>oc. o_year oc = y \<and> o_section oc = sec) (occ_metadata m)
           = map (\<lambda>(c, i). occ_of c i) (filter (\<lambda>p. ?Q (fst p)) ?E)"
    unfolding occs filter_map
    by (rule arg_cong [where f = "map (\<lambda>(c, i). occ_of c i)"], rule filter_cong [OF refl])
       (simp add: occ_of_def split_beta)
  have "(\<Sum>oc\<leftarrow>filter (\<lambda>oc. o_year oc = y \<and> o_section oc = sec) (occ_metadata m). o_duration oc)
        = sum_list (map (\<lambda>p. p_duration (fst p)) (filter (\<lambda>p. ?Q (fst p)) ?E))"
    unfolding f by (simp add: comp_def split_beta occ_of_def)
  also have "\<dots> = (\<Sum>c\<leftarrow>filter ?Q pcs. int (nat (p_lectures c)) * p_duration c)"
    by (rule expand_sum)
  finally show "(\<Sum>oc\<leftarrow>filter (\<lambda>oc. o_year oc = y \<and> o_section oc = sec) (occ_metadata m). o_duration oc)
         = (\<Sum>c\<leftarrow>filter ?Q pcs. int (nat (p_lectures c)) * p_duration c)" .
  have "int (length (filter (\<lambda>oc. o_year oc = y \<and> o_section oc = sec) (occ_metadata m)))
        = sum_list (map (\<lambda>p. 1 :: int) (filter (\<lambda>p. ?Q (fst p)) ?E))"
    unfolding f by (simp add: sum_list_triv)
  also have "\<dots> = (\<Sum>c\<leftarrow>filter ?Q pcs. int (nat (p_lectures c)) * 1)"
    by (rule expand_sum [where h = "\<lambda>c. 1"])
  finally show "int (length (filter (\<lambda>oc. o_year oc = y \<and> o_section oc = sec) (occ_metadata m)))
         = (\<Sum>c\<leftarrow>filter ?Q pcs. int (nat (p_lectures c)))" by simp
qed

lemma free_for_pair:
  assumes "y \<in> set years" and "sec \<in> set (map fst (year_sections sections y))"
    and "distinct (map fst (year_sections sections y))"
  shows "filter (\<lambda>c. p_year c = y \<and> p_section c = sec) (free_courses sections reqs n)
         = free_for_section reqs n y sec"
proof -
  let ?F = "\<lambda>year. concat (map (free_for_section reqs n year) (map fst (year_sections sections year)))"
  have dy: "distinct years" by (simp add: years_def)
  have ky: "\<forall>z\<in>set years. \<forall>c\<in>set (?F z). p_year c = z"
    by (auto simp: free_for_section_def free_course_def Let_def split: if_splits)
  have ks: "\<forall>z\<in>set (map fst (year_sections sections y)). \<forall>c\<in>set (free_for_section reqs n y z). p_section c = z"
    by (auto simp: free_for_section_def free_course_def Let_def split: if_splits)
  have "filter (\<lambda>c. p_year c = y \<and> p_section c = sec) (free_courses sections reqs n)
        = filter (\<lambda>c. p_section c = sec) (filter (\<lambda>c. p_year c = y) (concat (map ?F years)))"
    by (simp only: free_courses_def filter_filter)
  also have "filter (\<lambda>c. p_year c = y) (concat (map ?F years)) = ?F y"
    using dy assms(1) ky by (rule filter_concat_key)
  also have "filter (\<lambda>c. p_section c = sec) (?F y) = free_for_section reqs n y sec"
    using assms(3,2) ks by (rule filter_concat_key)
  finally show ?thesis .
qed

lemma processed_pair:
  "filter (\<lambda>c. p_year c = y \<and> p_section c = sec) (map (process_course teachers) courses)
     = map (process_course teachers) (filter (in_section y sec) courses)"
  unfolding filter_map
  by (rule arg_cong [where f = "map (process_course teachers)"], rule filter_cong [OF refl])
     (simp add: process_course_def in_section_def course_section_def Let_def)

lemma used_of_pair:
  assumes "\<forall>c\<in>set courses. section_key (c_year c) (course_section c) = section_key y sec
             \<longrightarrow> in_section y sec c"
  shows "(case section_requirements (map (process_course teachers) courses) Map.empty (section_key y sec) of
            None \<Rightarrow> 0 | Some r \<Rightarrow> r)
         = (\<Sum>c\<leftarrow>filter (in_section y sec) courses. c_lectures c * c_duration c)"
proof -
  let ?P = "map (process_course teachers) courses"
  have "filter (\<lambda>c. section_key (p_year c) (p_section c) = section_key y sec) ?P
        = filter (\<lambda>c. p_year c = y \<and> p_section c = sec) ?P"
  proof (rule filter_cong [OF refl])
    fix c assume "c \<in> set ?P"
    then obtain x where x: "x \<in> set courses" and c: "c = process_course teachers x" by auto
    from assms x show "(section_key (p_year c) (p_section c) = section_key y sec)
        = (p_year c = y \<and> p_section c = sec)"
      by (auto simp: c processed_fields in_section_def)
  qed
  then show ?thesis
    by (simp only: section_used processed_pair) (simp add: comp_def processed_fields)
qed

lemma sum_times_pred:
  fixes l d :: "'a \<Rightarrow> int"
  shows "(\<Sum>c\<leftarrow>xs. l c * (d c - 1)) = (\<Sum>c\<leftarrow>xs. l c * d c) - (\<Sum>c\<leftarrow>xs. l c)"
  by (induction xs) (simp_all add: algebra_simps)

lemma pair_totals:
  assumes ok: "\<forall>c\<in>set courses. 0 \<le> c_lectures c
                 \<and> (section_key (c_year c) (course_section c) = section_key y sec \<longrightarrow> in_section y sec c)"
    and bm: "build_model constraints courses teachers sections True = Inr (ts, m)"
    and sat: "cp_sat m a"
    and y: "y \<in> set years" and sec: "sec \<in> set (map fst (year_sections sections y))"
    and dk: "distinct (map fst (year_sections sections y))"
  shows "(\<Sum>oc\<leftarrow>filter (\<lambda>oc. o_year oc = y \<and> o_section oc = sec) (occ_metadata m). o_duration oc)
         = int (length (slot_names ts))"
    and "int (length (filter (\<lambda>oc. o_year oc = y \<and> o_section oc = sec) (occ_metadata m)))
         = int (length (slot_names ts))
           - (\<Sum>c\<leftarrow>filter (in_section y sec) courses. c_lectures c * (c_duration c - 1))"
proof -
  let ?n = "length (slot_names ts)"
  let ?cs = "filter (in_section y sec) courses"
  let ?P = "map (process_course teachers) courses"
  let ?reqs = "section_requirements ?P Map.empty"
  let ?Q = "\<lambda>c. p_year c = y \<and> p_section c = sec"
  define U where "U = (\<Sum>c\<leftarrow>?cs. c_lectures c * c_duration c)"
  define L where "L = (\<Sum>c\<leftarrow>?cs. c_lectures c)"
  define F where "F = (if U < int ?n then int ?n - U else 0)"
  have keys: "\<forall>c\<in>set courses. section_key (c_year c) (course_section c) = section_key y sec
             \<longrightarrow> in_section y sec c" using ok by blast
  have pcs: "all_courses teachers sections True ?n courses = ?P @ free_courses sections ?reqs ?n"
    by (simp add: all_courses_def Let_def)
  have fQ: "filter ?Q (all_courses teachers sections True ?n courses)
            = map (process_course teachers) ?cs @ free_for_section ?reqs ?n y sec"
    by (simp only: pcs filter_append processed_pair free_for_pair [OF y sec dk])
  have used: "(case ?reqs (section_key y sec) of None \<Rightarrow> 0 | Some r \<Rightarrow> r) = U"
    unfolding U_def using keys by (rule used_of_pair)
  have free_d: "(\<Sum>c\<leftarrow>free_for_section ?reqs ?n y sec. int (nat (p_lectures c)) * p_duration c) = F"
    by (simp add: free_for_section_def Let_def used free_course_def F_def)
  have free_c: "(\<Sum>c\<leftarrow>free_for_section ?reqs ?n y sec. int (nat (p_lectures c))) = F"
    by (simp add: free_for_section_def Let_def used free_course_def F_def)
  have nonneg: "int (nat (c_lectures c)) = c_lectures c" if "c \<in> set ?cs" for c
    using ok that by simp
  have proc_d: "(\<Sum>c\<leftarrow>map (process_course teachers) ?cs. int (nat (p_lectures c)) * p_duration c) = U"
  proof -
    have "map (\<lambda>c. int (nat (c_lectures c)) * c_duration c) ?cs = map (\<lambda>c. c_lectures c * c_duration c) ?cs"
      by (rule map_cong [OF refl]) (simp only: nonneg)
    then show ?thesis by (simp only: map_map comp_def processed_fields U_def)
  qed
  have proc_c: "(\<Sum>c\<leftarrow>map (process_course teachers) ?cs. int (nat (p_lectures c))) = L"
  proof -
    have "map (\<lambda>c. int (nat (c_lectures c))) ?cs = map (\<lambda>c. c_lectures c) ?cs"
      by (rule map_cong [OF refl]) (simp only: nonneg)
    then show ?thesis by (simp only: map_map comp_def processed_fields L_def)
  qed
  have D: "(\<Sum>oc\<leftarrow>filter (\<lambda>oc. o_year oc = y \<and> o_section oc = sec) (occ_metadata m). o_duration oc) = U + F"
    unfolding occs_of_pair(1) [OF bm] fQ by (simp only: map_append sum_list_append proc_d free_d)
  have C: "int (length (filter (\<lambda>oc. o_year oc = y \<and> o_section oc = sec) (occ_metadata m))) = L + F"
    unfolding occs_of_pair(2) [OF bm] fQ by (simp only: map_append sum_list_append proc_c free_c)
  from section_fits [OF bm sat, of y sec] D have "U + F \<le> int ?n" by simp
  then have UF: "U + F = int ?n" by (auto simp: F_def split: if_splits)
  show "(\<Sum>oc\<leftarrow>filter (\<lambda>oc. o_year oc = y \<and> o_section oc = sec) (occ_metadata m). o_duration oc) = int ?n"
    using D UF by simp
  have "(\<Sum>c\<leftarrow>?cs. c_lectures c * (c_duration c - 1)) = U - L"
    unfolding U_def L_def by (rule sum_times_pred)
  with C UF show "int (length (filter (\<lambda>oc. o_year oc = y \<and> o_section oc = sec) (occ_metadata m)))
         = int ?n - (\<Sum>c\<leftarrow>?cs. c_lectures c * (c_duration c - 1))"
    by simp
qed

lemma sum_concat_map:
  fixes g :: "'b \<Rightarrow> int"
  shows "(\<Sum>e\<leftarrow>concat (map f ds). g e) = (\<Sum>d\<leftarrow>ds. \<Sum>e\<leftarrow>f d. g e)"
  by (induction ds) simp_all

lemma length_as_sum: "int (length xs) = (\<Sum>x\<leftarrow>xs. 1)"
  by (induction xs) simp_all

lemma week_entries_occs:
  assumes wf: "wf_slots ts" and br: "build_response ts sections a occs = Inr resp"
    and y: "y \<in> set years" and sec: "sec \<in> set (map fst (year_sections sections y))"
  shows "week_entries resp y sec
         = concat (map (\<lambda>d. map (entry_of ts sections a) (bucket_occs ts sections a occs y sec d)) lower_week)"
proof -
  have "(case bucket resp y sec d of None \<Rightarrow> [] | Some b \<Rightarrow> b)
        = map (entry_of ts sections a) (bucket_occs ts sections a occs y sec d)"
    if "d \<in> set lower_week" for d
    using build_response_Inr(3) [OF wf br, of y sec d] y sec that
    by (simp add: bucket_positions(1))
  then have "map (\<lambda>d. case bucket resp y sec d of None \<Rightarrow> [] | Some b \<Rightarrow> b) lower_week
        = map (\<lambda>d. map (entry_of ts sections a) (bucket_occs ts sections a occs y sec d)) lower_week"
    by (intro map_cong [OF refl])
  then show ?thesis by (simp only: week_entries_def)
qed

lemma week_sum:
  fixes g :: "occ \<Rightarrow> int"
  assumes wf: "wf_slots ts" and br: "build_response ts sections a occs = Inr resp"
    and y: "y \<in> set years" and sec: "sec \<in> set (map fst (year_sections sections y))"
  shows "(\<Sum>d\<leftarrow>lower_week. \<Sum>oc\<leftarrow>bucket_occs ts sections a occs y sec d. g oc)
         = (\<Sum>oc\<leftarrow>filter (\<lambda>oc. o_year oc = y \<and> o_section oc = sec) occs. g oc)"
proof -
  have dl: "distinct lower_week" by (simp add: lower_week_eval)
  have days: "\<forall>oc\<in>set occs. o_year oc = y \<and> o_section oc = sec \<longrightarrow> day_of ts a oc \<in> set lower_week"
    using build_response_Inr(2) [OF wf br] y sec by (auto simp: in_response_def)
  have "map (\<lambda>d. \<Sum>oc\<leftarrow>bucket_occs ts sections a occs y sec d. g oc) lower_week
        = map (\<lambda>d. sum_list (map g (filter (\<lambda>oc. (o_year oc = y \<and> o_section oc = sec) \<and> day_of ts a oc = d) occs))) lower_week"
    by (rule map_cong [OF refl]) (simp add: bucket_occs_def sum_sort_key conj_assoc)
  then show ?thesis by (simp only: sum_by_day [OF dl days])
qed

text \<open>
  Claim C8, as amended. With free-period padding and a solver answer that satisfies the
  model, take a year of \<^verbatim>\<open>Year1\<close> to \<^verbatim>\<open>Year4\<close> and a section of that year (the
  sections of a year are the keys of a dictionary, hence pairwise different), such that
  no course has a negative number of lectures and the key \<^verbatim>\<open>year_section\<close> of the pair
  is the key of no course of another year or section. Then the entries of the week cover
  the calendar exactly: their durations (end minus start) add up to the number of slots.
  Their number is the number of slots less \<open>lectures \<times> (duration - 1)\<close> summed over the
  courses of the section, so it equals the number of slots when every such course lasts
  one slot.
\<close>

theorem padded_week_covers_calendar:
  assumes "\<forall>c\<in>set courses. 0 \<le> c_lectures c
             \<and> (section_key (c_year c) (course_section c) = section_key y sec \<longrightarrow> in_section y sec c)"
    and "build_model constraints courses teachers sections True = Inr (ts, m)"
    and "solve max_time_seconds m = (st, a)" and "cp_sat m a"
    and "generate_college_timetable_with_sections solve constraints courses teachers sections
           True max_time_seconds = Inr resp"
    and "y \<in> set years" and "sec \<in> set (map fst (year_sections sections y))"
    and "distinct (map fst (year_sections sections y))"
  shows "(\<Sum>e\<leftarrow>week_entries resp y sec. entry_end e - entry_start e) = int (length (slot_names ts))
       \<and> int (length (week_entries resp y sec))
           = int (length (slot_names ts))
             - (\<Sum>c\<leftarrow>filter (in_section y sec) courses. c_lectures c * (c_duration c - 1))"
proof -
  let ?occs = "occ_metadata m"
  from assms(2,5) obtain st' a' where "solve max_time_seconds m = (st', a')"
    and "build_response ts sections a' ?occs = Inr resp"
    by (rule generate_Inr)
  with assms(3) have br: "build_response ts sections a ?occs = Inr resp" by simp
  have wf: "wf_slots ts" using assms(2) by (rule build_model_parts(5))
  note we = week_entries_occs [OF wf br assms(6,7)]
  note tot = pair_totals [OF assms(1,2,4,6,7,8)]
  have "(\<Sum>e\<leftarrow>week_entries resp y sec. entry_end e - entry_start e)
        = (\<Sum>d\<leftarrow>lower_week. \<Sum>oc\<leftarrow>bucket_occs ts sections a ?occs y sec d. o_duration oc)"
    unfolding we sum_concat_map by (simp add: comp_def entry_of_clock)
  also have "\<dots> = int (length (slot_names ts))"
    by (simp only: week_sum [OF wf br assms(6,7)] tot(1))
  finally have 1: "(\<Sum>e\<leftarrow>week_entries resp y sec. entry_end e - entry_start e) = int (length (slot_names ts))" .
  have "int (length (week_entries resp y sec))
        = (\<Sum>d\<leftarrow>lower_week. \<Sum>oc\<leftarrow>bucket_occs ts sections a ?occs y sec d. 1)"
    unfolding we length_as_sum sum_concat_map by (simp add: comp_def)
  also have "\<dots> = int (length (filter (\<lambda>oc. o_year oc = y \<and> o_section oc = sec) ?occs))"
    by (simp only: week_sum [OF wf br assms(6,7)] length_as_sum)
  finally have 2: "int (length (week_entries resp y sec))
           = int (length (slot_names ts))
             - (\<Sum>c\<leftarrow>filter (in_section y sec) courses. c_lectures c * (c_duration c - 1))"
    by (simp only: tot(2))
  from 1 2 show ?thesis ..
qed

theorem padded_week_covers_calendar_witness:
  "\<exists>ts m resp.
      build_model morning [double_maths] Map.empty (only_year1 [''A'']) True = Inr (ts, m)
    \<and> cp_sat m (starts_of [0, 2] [2, 1])
    \<and> generate_college_timetable_with_sections (\<lambda>t m. (FEASIBLE, starts_of [0, 2] [2, 1]))
        morning [double_maths] Map.empty (only_year1 [''A'']) True 30 = Inr resp
    \<and> length (slot_names ts) = 3
    \<and> (\<Sum>e\<leftarrow>week_entries resp ''Year1'' ''A''. entry_end e - entry_start e) = int (length (slot_names ts))
    \<and> int (length (week_entries resp ''Year1'' ''A''))
        = int (length (slot_names ts))
          - (\<Sum>c\<leftarrow>filter (in_section ''Year1'' ''A'') [double_maths]. c_lectures c * (c_duration c - 1))"
proof -
  let ?cs = "[double_maths]"
  let ?secs = "only_year1 [''A'']"
  let ?a = "starts_of [0, 2] [2, 1]"
  let ?solve = "\<lambda>(t :: int) (m :: cp_model). (FEASIBLE, ?a)"
  let ?gen = "generate_college_timetable_with_sections ?solve morning ?cs Map.empty ?secs True 30"
  have ev: "case build_model morning ?cs Map.empty ?secs True of
          Inl e \<Rightarrow> False | Inr (ts, m) \<Rightarrow> cp_sat m ?a \<and> length (slot_names ts) = 3"
    by code_simp
  have ev2: "case ?gen of Inl e \<Rightarrow> False | Inr resp \<Rightarrow> True"
    by code_simp
  from ev obtain ts m where bm: "build_model morning ?cs Map.empty ?secs True = Inr (ts, m)"
    by (cases "build_model morning ?cs Map.empty ?secs True") auto
  from ev [unfolded bm] have sat: "cp_sat m ?a" and n: "length (slot_names ts) = 3" by simp_all
  from ev2 obtain resp where g: "?gen = Inr resp" by (cases ?gen) auto
  have ok: "\<forall>c\<in>set ?cs. 0 \<le> c_lectures c
             \<and> (section_key (c_year c) (course_section c) = section_key ''Year1'' ''A''
                  \<longrightarrow> in_section ''Year1'' ''A'' c)"
    by (simp add: double_maths_def in_section_def course_section_def)
  have s: "?solve 30 m = (FEASIBLE, ?a)" by simp
  have y: "''Year1'' \<in> set years" by (simp add: years_def)
  have sec: "''A'' \<in> set (map fst (year_sections ?secs ''Year1''))"
    and dk: "distinct (map fst (year_sections ?secs ''Year1''))"
    by (simp_all add: year_sections_def only_year1_def)
  note cover = padded_week_covers_calendar [OF ok bm s sat g y sec dk]
  show ?thesis
    by (rule exI [of _ ts], rule exI [of _ m], rule exI [of _ resp], intro conjI)
       (rule bm sat g n cover [THEN conjunct1] cover [THEN conjunct2])+
qed

text \<open>
  Claim C8 as stated fails as soon as a course lasts more than one slot. A calendar of
  three slots, one lecture of two slots for section A of \<^verbatim>\<open>Year1\<close>, padding on: the
  model has one ``Free'' occurrence, the solve succeeds, and the section has two entries
  in the week, not three.
\<close>

theorem entries_fewer_than_slots_counterexample:
  "(case build_model morning [double_maths] Map.empty (only_year1 [''A'']) True of
      Inl e \<Rightarrow> False
    | Inr (ts, m) \<Rightarrow> cp_sat m (starts_of [0, 2] [2, 1]) \<and> length (slot_names ts) = 3)
   \<and> (case generate_college_timetable_with_sections (\<lambda>t m. (FEASIBLE, starts_of [0, 2] [2, 1]))
              morning [double_maths] Map.empty (only_year1 [''A'']) True 30 of
         Inl e \<Rightarrow> False
       | Inr resp \<Rightarrow> length (week_entries resp ''Year1'' ''A'') = 2)"
  by code_simp

text \<open>
  The two conditions on the courses are needed. A course of year \<^verbatim>\<open>Year1_X\<close> and
  section \<^verbatim>\<open>Y\<close> has the key of section \<^verbatim>\<open>X_Y\<close> of \<^verbatim>\<open>Year1\<close>: its lecture is
  counted as a used slot of that section, which then gets two ``Free'' periods on a
  calendar of three slots. A course with \<open>-1\<close> lectures of duration \<open>-1\<close> counts as one
  used slot and has no occurrence, with the same effect.
\<close>

lemma shared_key_example:
  "(case build_model morning [merged_maths] Map.empty (only_year1 [''X_Y'']) True of
      Inl e \<Rightarrow> False
    | Inr (ts, m) \<Rightarrow> cp_sat m (starts_of [0, 1, 2] [1, 1, 1]) \<and> length (slot_names ts) = 3)
   \<and> section_key (c_year merged_maths) (course_section merged_maths) = section_key ''Year1'' ''X_Y''
   \<and> (case generate_college_timetable_with_sections (\<lambda>t m. (FEASIBLE, starts_of [0, 1, 2] [1, 1, 1]))
              morning [merged_maths] Map.empty (only_year1 [''X_Y'']) True 30 of
         Inl e \<Rightarrow> False
       | Inr resp \<Rightarrow> (\<Sum>e\<leftarrow>week_entries resp ''Year1'' ''X_Y''. entry_end e - entry_start e) = 2)"
  by code_simp

lemma negative_lectures_example:
  "(case build_model morning [negative_maths] Map.empty (only_year1 [''A'']) True of
      Inl e \<Rightarrow> False
    | Inr (ts, m) \<Rightarrow> cp_sat m (starts_of [0, 1] [1, 1]) \<and> length (slot_names ts) = 3)
   \<and> (case generate_college_timetable_with_sections (\<lambda>t m. (FEASIBLE, starts_of [0, 1] [1, 1]))
              morning [negative_maths] Map.empty (only_year1 [''A'']) True 30 of
         Inl e \<Rightarrow> False
       | Inr resp \<Rightarrow> (\<Sum>e\<leftarrow>week_entries resp ''Year1'' ''A''. entry_end e - entry_start e) = 2)"
  by code_simp

section \<open>Free-period padding and the teacher constraint\<close>

text \<open>
  Claim C4 at a concrete input: one day with one slot, one course of one lecture for
  section A of \<^verbatim>\<open>Year1\<close>, no other section in the map. Without padding the model
  is satisfied by placing the lecture in the slot. With padding the years
  \<^verbatim>\<open>Year2\<close> to \<^verbatim>\<open>Year4\<close> each get a ``Free'' occurrence for their default
  section A; all three carry the teacher \<^verbatim>\<open>'None'\<close>, so
  \<^verbatim>\<open>apply_teacher_conflict_constraint\<close> forbids any two of them in the same slot,
  and no assignment satisfies the model.
\<close>

theorem free_periods_exclude_each_other:
  "(case build_model (one_slot_at 9) [maths_for ''A''] Map.empty year1_only False of
      Inl e \<Rightarrow> False
    | Inr (ts, m) \<Rightarrow> cp_sat m (all_starts 0))
   \<and> (case build_model (one_slot_at 9) [maths_for ''A''] Map.empty year1_only True of
      Inl e \<Rightarrow> False
    | Inr (ts, m) \<Rightarrow>
        map o_subject (occ_metadata m) = [''Maths'', ''Free'', ''Free'', ''Free'']
      \<and> map o_year (occ_metadata m) = [''Year1'', ''Year2'', ''Year3'', ''Year4'']
      \<and> map o_teacher (occ_metadata m) = [''T'', ''None'', ''None'', ''None'']
      \<and> AtMostOne (2, 0) (3, 0)
           \<in> set (apply_teacher_conflict_constraint (occ_metadata m) (start_at m) (slot_names ts))
      \<and> (\<forall>a. \<not> cp_sat m a))"
proof -
  have without: "case build_model (one_slot_at 9) [maths_for ''A''] Map.empty year1_only False of
      Inl e \<Rightarrow> False
    | Inr (ts, m) \<Rightarrow> cp_sat m (all_starts 0)"
    by code_simp
  have ev: "case build_model (one_slot_at 9) [maths_for ''A''] Map.empty year1_only True of
      Inl e \<Rightarrow> False
    | Inr (ts, m) \<Rightarrow>
        map o_subject (occ_metadata m) = [''Maths'', ''Free'', ''Free'', ''Free'']
      \<and> map o_year (occ_metadata m) = [''Year1'', ''Year2'', ''Year3'', ''Year4'']
      \<and> map o_teacher (occ_metadata m) = [''T'', ''None'', ''None'', ''None'']
      \<and> AtMostOne (2, 0) (3, 0)
           \<in> set (apply_teacher_conflict_constraint (occ_metadata m) (start_at m) (slot_names ts))
      \<and> StartDomain 2 [0] \<in> set (cp_constraints m) \<and> StartIsNot (2, 0) \<in> set (cp_constraints m)
      \<and> StartDomain 3 [0] \<in> set (cp_constraints m) \<and> StartIsNot (3, 0) \<in> set (cp_constraints m)
      \<and> AtMostOne (2, 0) (3, 0) \<in> set (cp_constraints m)"
    by code_simp
  then obtain ts m where
    bm: "build_model (one_slot_at 9) [maths_for ''A''] Map.empty year1_only True = Inr (ts, m)"
    by (cases "build_model (one_slot_at 9) [maths_for ''A''] Map.empty year1_only True") auto
  note facts = ev [unfolded bm, simplified]
  have unsat: "\<not> cp_sat m a" for a
  proof
    assume "cp_sat m a"
    then have all: "\<forall>x\<in>set (cp_constraints m). holds a x"
      by (simp add: cp_sat_def list_all_iff)
    from all facts have "holds a (StartDomain 2 [0])" "holds a (StartIsNot (2, 0))"
      "holds a (StartDomain 3 [0])" "holds a (StartIsNot (3, 0))" "holds a (AtMostOne (2, 0) (3, 0))"
      by blast+
    then show False by auto
  qed
  from facts unsat have "case build_model (one_slot_at 9) [maths_for ''A''] Map.empty year1_only True of
      Inl e \<Rightarrow> False
    | Inr (ts, m) \<Rightarrow>
        map o_subject (occ_metadata m) = [''Maths'', ''Free'', ''Free'', ''Free'']
      \<and> map o_year (occ_metadata m) = [''Year1'', ''Year2'', ''Year3'', ''Year4'']
      \<and> map o_teacher (occ_metadata m) = [''T'', ''None'', ''None'', ''None'']
      \<and> AtMostOne (2, 0) (3, 0)
           \<in> set (apply_teacher_conflict_constraint (occ_metadata m) (start_at m) (slot_names ts))
      \<and> (\<forall>a. \<not> cp_sat m a)"
    by (simp add: bm)
  with without show ?thesis ..
qed

end
